theory Spec2Isabelle
  imports Complex_Main "HOL-Library.AList" "HOL-Library.Char_ord" "HOL-Library.List_Lexorder"
begin

section \<open>Data model of the job payload\<close>

text \<open>
  The payload of \<^verbatim>\<open>ml_engine.py\<close> carries \<^verbatim>\<open>nodes\<close> (each
  \<^verbatim>\<open>{id, data: {label}}\<close>) and \<^verbatim>\<open>edges\<close> (each \<^verbatim>\<open>{source, target}\<close>).
  Node ids are strings. Python's unbounded integers are \<open>int\<close>.
\<close>

type_synonym node_id = string

record node =
  node_id :: node_id
  label :: string

record edge =
  source :: node_id
  target :: node_id

text \<open>
  Exceptions of the source as values. \<open>KeyError k\<close> is the failed lookup
  \<^verbatim>\<open>in_degree[k]\<close>; \<open>NotADirectoryError p\<close> is \<^verbatim>\<open>os.listdir(p)\<close> on something
  that cannot be listed; \<open>LibraryError m\<close> is whatever the learning library raises.
\<close>

datatype exn = KeyError string | NotADirectoryError string | LibraryError string

section \<open>Topological Sequencer: \<^verbatim>\<open>build_execution_order\<close>\<close>

text \<open>
  \<^verbatim>\<open>in_degree\<close> is a Python dict, iterated in insertion order on line 39, so it is an
  association list: \<open>AList.update\<close> overwrites the value of a key that is present, in
  place, and appends a new key at the end, as a dict assignment does.
  \<^verbatim>\<open>graph\<close> is a \<^verbatim>\<open>defaultdict(list)\<close> that is only ever indexed: a total function
  with default \<open>[]\<close>.
\<close>

type_synonym in_degree = "(node_id \<times> int) list"
type_synonym graph = "node_id \<Rightarrow> node_id list"

text \<open>Line 34: \<^verbatim>\<open>in_degree = {node['id']: 0 for node in nodes}\<close>.\<close>

definition init_in_degree :: "node list \<Rightarrow> in_degree" where
  "init_in_degree nodes = foldl (\<lambda>d n. AList.update (node_id n) 0 d) [] nodes"

text \<open>
  Lines 35-37: for each edge, append the target to \<^verbatim>\<open>graph[source]\<close>, then
  \<^verbatim>\<open>in_degree[target] += 1\<close>, which raises \<^verbatim>\<open>KeyError\<close> when the target is not a key.
\<close>

fun add_edges :: "edge list \<Rightarrow> graph \<times> in_degree \<Rightarrow> exn + graph \<times> in_degree" where
  "add_edges [] gd = Inr gd"
| "add_edges (e # es) (g, d) =
     (case map_of d (target e) of
        None \<Rightarrow> Inl (KeyError (target e))
      | Some v \<Rightarrow>
          add_edges es (g(source e := g (source e) @ [target e]),
                        AList.update (target e) (v + 1) d))"

text \<open>Line 39: \<^verbatim>\<open>deque([nid for nid, deg in in_degree.items() if deg == 0])\<close>.\<close>

definition ready_queue :: "in_degree \<Rightarrow> node_id list" where
  "ready_queue d = map fst (filter (\<lambda>p. snd p = 0) d)"

text \<open>
  Lines 45-48, the inner loop over \<^verbatim>\<open>graph[nid]\<close>: decrement the neighbour's
  in-degree and append it to the queue when the new value is exactly zero.
\<close>

fun relax :: "node_id list \<Rightarrow> in_degree \<times> node_id list \<Rightarrow> exn + in_degree \<times> node_id list" where
  "relax [] dq = Inr dq"
| "relax (t # ts) (d, q) =
     (case map_of d t of
        None \<Rightarrow> Inl (KeyError t)
      | Some v \<Rightarrow>
          relax ts (AList.update t (v - 1) d, if v - 1 = 0 then q @ [t] else q))"

text \<open>The number of keys whose in-degree is still positive: the loop's measure.\<close>

definition pending :: "in_degree \<Rightarrow> nat" where
  "pending d = length (filter (\<lambda>p. 0 < snd p) d)"

lemma pending_update:
  "map_of d t = Some v \<Longrightarrow>
   pending (AList.update t w d) + (if 0 < v then 1 else 0) = pending d + (if 0 < w then 1 else 0)"
  by (induction d) (auto simp: pending_def split: if_splits)

lemma relax_measure:
  "relax ts (d, q) = Inr (d', q') \<Longrightarrow> pending d' + length q' \<le> pending d + length q"
proof (induction ts arbitrary: d q)
  case Nil
  then show ?case by simp
next
  case (Cons t ts)
  from Cons.prems obtain v where v: "map_of d t = Some v"
    by (auto split: option.splits)
  let ?d = "AList.update t (v - 1) d"
  let ?q = "if v - 1 = 0 then q @ [t] else q"
  from Cons.prems v have "relax ts (?d, ?q) = Inr (d', q')" by simp
  from Cons.IH [OF this] have "pending d' + length q' \<le> pending ?d + length ?q" .
  moreover from pending_update [OF v, of "v - 1"]
  have "pending ?d + length ?q \<le> pending d + length q"
    by (cases "v = 1") (auto split: if_splits)
  ultimately show ?case by linarith
qed

text \<open>
  Lines 42-48, the \<^verbatim>\<open>while queue\<close> loop: pop the head, append it to the order,
  relax its neighbours.
\<close>

function drain :: "graph \<Rightarrow> in_degree \<Rightarrow> node_id list \<Rightarrow> node_id list \<Rightarrow> exn + node_id list" where
  "drain g d [] order = Inr order"
| "drain g d (n # q) order =
     (case relax (g n) (d, q) of
        Inl e \<Rightarrow> Inl e
      | Inr (d', q') \<Rightarrow> drain g d' q' (order @ [n]))"
  by pat_completeness auto
termination
proof (relation "measure (\<lambda>(g, d, q, order). pending d + length q)")
  show "wf (measure (\<lambda>(g, d, q, order). pending d + length q))" by simp
next
  fix g :: graph and d :: in_degree and n :: node_id and q order :: "node_id list"
    and x2 :: "in_degree \<times> node_id list" and d' q'
  assume "relax (g n) (d, q) = Inr x2" and "(d', q') = x2"
  then have "relax (g n) (d, q) = Inr (d', q')" by simp
  from relax_measure [OF this]
  show "((g, d', q', order @ [n]), (g, d, n # q, order))
        \<in> measure (\<lambda>(g, d, q, order). pending d + length q)"
    by simp
qed

text \<open>Lines 31-50.\<close>

definition build_execution_order :: "node list \<Rightarrow> edge list \<Rightarrow> exn + node_id list" where
  "build_execution_order nodes edges =
     (case add_edges edges (\<lambda>_. [], init_in_degree nodes) of
        Inl e \<Rightarrow> Inl e
      | Inr (g, d) \<Rightarrow> drain g d (ready_queue d) [])"

section \<open>Stage Reachability Gate\<close>

text \<open>
  Line 68: \<^verbatim>\<open>id_to_label = {node['id']: node['data']['label'] for node in nodes}\<close>,
  a dict again, looked up with \<^verbatim>\<open>.get(node_id, "Unknown")\<close> on line 78.
\<close>

definition id_to_label :: "node list \<Rightarrow> (node_id \<times> string) list" where
  "id_to_label nodes = foldl (\<lambda>d n. AList.update (node_id n) (label n) d) [] nodes"

definition get_label :: "(node_id \<times> string) list \<Rightarrow> node_id \<Rightarrow> string" where
  "get_label m n = (case map_of m n of None \<Rightarrow> ''Unknown'' | Some l \<Rightarrow> l)"

text \<open>
  Lines 74-83: every visited node appends its label to \<^verbatim>\<open>stages\<close> before the test,
  and the \<^verbatim>\<open>break\<close> leaves the rest of the order unread. The result is
  \<^verbatim>\<open>(stages, model_training_reached)\<close>.
\<close>

fun walk :: "(node_id \<times> string) list \<Rightarrow> node_id list \<Rightarrow> string list \<Rightarrow> string list \<times> bool" where
  "walk m [] stages = (stages, False)"
| "walk m (n # ns) stages =
     (let l = get_label m n; stages' = stages @ [l]
      in if l = ''Model Training'' then (stages', True) else walk m ns stages')"

section \<open>Dataset Loader\<close>

text \<open>
  The operating system as the code sees it: \<^verbatim>\<open>os.path.exists\<close>, \<^verbatim>\<open>os.path.isdir\<close>
  and \<^verbatim>\<open>os.listdir\<close>, each a function of the path string. \<^verbatim>\<open>os.listdir\<close> returns
  the names in the order the system gives them, or raises.
\<close>

record filesystem =
  os_path_exists :: "string \<Rightarrow> bool"
  os_path_isdir :: "string \<Rightarrow> bool"
  os_listdir :: "string \<Rightarrow> exn + string list"

text \<open>\<^verbatim>\<open>os.path.join\<close> of two components (POSIX).\<close>

definition os_path_join :: "string \<Rightarrow> string \<Rightarrow> string" where
  "os_path_join a b =
     (if b \<noteq> [] \<and> hd b = CHR ''/'' then b
      else if a = [] \<or> last a = CHR ''/'' then a @ b
      else a @ ''/'' @ b)"

text \<open>
  \<^verbatim>\<open>str.lower\<close> on the letters that matter to the suffix test: only \<open>A\<close>-\<open>Z\<close> lower
  to the ASCII letters of the four suffixes.
\<close>

definition lower_char :: "char \<Rightarrow> char" where
  "lower_char c =
     (case map_of (zip ''ABCDEFGHIJKLMNOPQRSTUVWXYZ'' ''abcdefghijklmnopqrstuvwxyz'') c of
        None \<Rightarrow> c
      | Some l \<Rightarrow> l)"

definition lower :: "string \<Rightarrow> string" where
  "lower s = map lower_char s"

definition endswith :: "string \<Rightarrow> string \<Rightarrow> bool" where
  "endswith s suf = (length suf \<le> length s \<and> drop (length s - length suf) s = suf)"

text \<open>Line 61: \<^verbatim>\<open>file.lower().endswith(('.png', '.jpg', '.jpeg', '.bmp'))\<close>.\<close>

definition is_image :: "string \<Rightarrow> bool" where
  "is_image file = list_ex (endswith (lower file)) [''.png'', ''.jpg'', ''.jpeg'', ''.bmp'']"

text \<open>Lines 60-63, the loop over one class directory; the two lists grow in lock-step.\<close>

fun scan_class :: "string \<Rightarrow> string \<Rightarrow> string list \<Rightarrow> string list \<times> string list \<Rightarrow> string list \<times> string list" where
  "scan_class class_dir l [] acc = acc"
| "scan_class class_dir l (file # files) (image_paths, labels) =
     (if is_image file
      then scan_class class_dir l files (image_paths @ [os_path_join class_dir file], labels @ [l])
      else scan_class class_dir l files (image_paths, labels))"

text \<open>Lines 57-63, the loop over the entries of the image directory.\<close>

fun scan_root :: "filesystem \<Rightarrow> string \<Rightarrow> string list \<Rightarrow> string list \<times> string list \<Rightarrow> exn + string list \<times> string list" where
  "scan_root fs image_dir [] acc = Inr acc"
| "scan_root fs image_dir (l # ls) acc =
     (let class_dir = os_path_join image_dir l
      in if os_path_isdir fs class_dir
         then (case os_listdir fs class_dir of
                 Inl e \<Rightarrow> Inl e
               | Inr files \<Rightarrow> scan_root fs image_dir ls (scan_class class_dir l files acc))
         else scan_root fs image_dir ls acc)"

text \<open>Lines 56-63: \<^verbatim>\<open>(image_paths, labels)\<close>.\<close>

definition load_dataset :: "filesystem \<Rightarrow> string \<Rightarrow> exn + string list \<times> string list" where
  "load_dataset fs image_dir =
     (case os_listdir fs image_dir of
        Inl e \<Rightarrow> Inl e
      | Inr entries \<Rightarrow> scan_root fs image_dir entries ([], []))"

section \<open>Training Orchestrator: \<^verbatim>\<open>run_pipeline\<close> and \<^verbatim>\<open>main\<close>\<close>

text \<open>
  The records written to standard output, as \<^verbatim>\<open>json.dumps\<close> of a dict:
  \<open>ErrorRecord\<close> is \<^verbatim>\<open>{error}\<close>, \<open>ErrorPathRecord\<close> is \<^verbatim>\<open>{error, imagePath}\<close>,
  \<open>SuccessRecord\<close> is \<^verbatim>\<open>{message, model, accuracy, stagesExecuted, downloadLink}\<close>
  and \<open>PredictionRecord\<close> is \<^verbatim>\<open>{prediction}\<close>. \<open>ErrorTraceRecord p e\<close> is
  \<^verbatim>\<open>{error, trace}\<close> for the exception \<open>e\<close> caught: its \<^verbatim>\<open>error\<close> is the prefix \<open>p\<close>
  followed by \<^verbatim>\<open>str(e)\<close> and its \<^verbatim>\<open>trace\<close> is \<^verbatim>\<open>traceback.format_exc()\<close>. The two
  texts are Python's rendering of \<open>e\<close>, which the record carries in their place.
\<close>

datatype 'acc json_record =
    ErrorRecord string
  | ErrorTraceRecord string exn
  | ErrorPathRecord string "string option"
  | SuccessRecord string string 'acc "string list" string
  | PredictionRecord string

text \<open>
  The learning library is a parameter: \<open>extract_features\<close> (lines 22-29) returns
  \<open>None\<close> where the source catches the exception and returns \<^verbatim>\<open>None\<close>;
  \<open>train_and_score\<close> stands for lines 99-114 (encode, split, fit, predict, score), which
  may raise.
\<close>

record ('f, 'acc) learner =
  extract_features :: "string \<Rightarrow> 'f option"
  train_and_score :: "'f list \<Rightarrow> string list \<Rightarrow> exn + 'acc"

text \<open>Lines 88-93.\<close>

fun extract_all :: "('f, 'acc) learner \<Rightarrow> (string \<times> string) list \<Rightarrow> 'f list \<times> string list \<Rightarrow> 'f list \<times> string list" where
  "extract_all ml [] acc = acc"
| "extract_all ml ((path, l) # rest) (X, y) =
     (case extract_features ml path of
        None \<Rightarrow> extract_all ml rest (X, y)
      | Some features \<Rightarrow> extract_all ml rest (X @ [features], y @ [l]))"

text \<open>\<^verbatim>\<open>joblib.dump(obj, path)\<close>, taken to succeed: afterwards the file exists.\<close>

definition joblib_dump :: "filesystem \<Rightarrow> string \<Rightarrow> filesystem" where
  "joblib_dump fs path = fs\<lparr>os_path_exists := (os_path_exists fs)(path := True)\<rparr>"

text \<open>
  Lines 52-133. The result is the exception raised, or the value returned (\<open>None\<close> is
  Python's \<^verbatim>\<open>None\<close>, when the function falls off its end), the records written to
  standard output, and the file system afterwards. \<open>project_root\<close> is the directory of
  the script. The progress lines that the source prints to standard error are left out:
  they carry no result.
\<close>

definition run_pipeline ::
  "('f, 'acc) learner \<Rightarrow> filesystem \<Rightarrow> string \<Rightarrow> string \<Rightarrow> node list \<Rightarrow> edge list \<Rightarrow>
   exn + 'acc json_record option \<times> 'acc json_record list \<times> filesystem" where
  "run_pipeline ml fs project_root image_dir nodes edges =
     (case load_dataset fs image_dir of
        Inl e \<Rightarrow> Inl e
      | Inr (image_paths, labels) \<Rightarrow>
          if image_paths = [] then Inr (Some (ErrorRecord ''No valid images found.''), [], fs)
          else
            (case build_execution_order nodes edges of
               Inl e \<Rightarrow> Inl e
             | Inr exec_order \<Rightarrow>
                 (case walk (id_to_label nodes) exec_order [] of
                    (stages, model_training_reached) \<Rightarrow>
                      if \<not> model_training_reached
                      then Inr (Some (ErrorRecord ''Model Training node not connected in the pipeline.''), [], fs)
                      else
                        (case extract_all ml (zip image_paths labels) ([], []) of
                           (X, y) \<Rightarrow>
                             if X = [] \<or> y = []
                             then Inr (Some (ErrorRecord ''Feature extraction failed or no images were processed.''), [], fs)
                             else
                               (case train_and_score ml X y of
                                  Inl e \<Rightarrow> Inl e
                                | Inr accuracy \<Rightarrow>
                                    let model_path = os_path_join project_root ''model.pkl'';
                                        encoder_path = os_path_join project_root ''label_encoder.pkl'';
                                        fs' = joblib_dump (joblib_dump fs model_path) encoder_path
                                    in Inr (None,
                                            [SuccessRecord ''Pipeline executed and model trained successfully!''
                                               ''RandomForestClassifier'' accuracy stages ''/uploads/model.pkl''],
                                            fs'))))))"

text \<open>
  The parsed payload; \<^verbatim>\<open>json.loads\<close> or a \<^verbatim>\<open>.get\<close> that raises is the \<open>Inl\<close> input
  of \<open>main\<close>.
\<close>

record payload =
  nodes :: "node list"
  edges :: "edge list"
  imageFolder :: string

text \<open>
  Lines 135-155: the records on standard output and the file system afterwards.
  Line 149 calls \<^verbatim>\<open>run_pipeline\<close> and drops the value it returns.
\<close>

definition main ::
  "('f, 'acc) learner \<Rightarrow> filesystem \<Rightarrow> string \<Rightarrow> exn + payload \<Rightarrow> 'acc json_record list \<times> filesystem" where
  "main ml fs project_root input =
     (case input of
        Inl e \<Rightarrow> ([ErrorTraceRecord ''Unexpected error occurred: '' e], fs)
      | Inr p \<Rightarrow>
          if \<not> os_path_exists fs (imageFolder p)
          then ([ErrorRecord ''Extracted image folder not found.''], fs)
          else
            (case run_pipeline ml fs project_root (imageFolder p) (nodes p) (edges p) of
               Inl e \<Rightarrow> ([ErrorTraceRecord ''Unexpected error occurred: '' e], fs)
             | Inr (returned, out, fs') \<Rightarrow> (out, fs')))"

section \<open>Inference Runner: \<^verbatim>\<open>predict.py\<close>\<close>

text \<open>
  Lines 20-81 of \<^verbatim>\<open>predict.py\<close>. \<open>classify\<close> stands for lines 57-68 (load both
  artifacts, preprocess, predict, invert the label), which may raise. \<open>base_dir\<close> is the
  directory of the script, the one \<^verbatim>\<open>ml_engine.py\<close> is in as well.
\<close>

definition predict_main ::
  "(string \<Rightarrow> string \<Rightarrow> string \<Rightarrow> exn + string) \<Rightarrow> filesystem \<Rightarrow> string \<Rightarrow> string option \<Rightarrow>
   'acc json_record list" where
  "predict_main classify fs base_dir image_path =
     (if image_path = None \<or> image_path = Some [] \<or> \<not> os_path_exists fs (the image_path)
      then [ErrorPathRecord '' Image path is missing or file does not exist.'' image_path]
      else
        let model_path = os_path_join (os_path_join base_dir ''uploads'') ''model.pkl'';
            encoder_path = os_path_join (os_path_join base_dir ''uploads'') ''label_encoder.pkl''
        in if \<not> os_path_exists fs model_path
           then [ErrorRecord '' Trained model file (uploads/model.pkl) not found.'']
           else if \<not> os_path_exists fs encoder_path
           then [ErrorRecord '' Label encoder file (uploads/label_encoder.pkl) not found.'']
           else
             (case classify model_path encoder_path (the image_path) of
                Inl e \<Rightarrow> [ErrorTraceRecord '' Prediction failed: '' e]
              | Inr predicted_class \<Rightarrow> [PredictionRecord predicted_class]))"

section \<open>Vocabulary of the properties\<close>

text \<open>
  The position of the first occurrence of \<open>x\<close> in \<open>xs\<close> (\<^verbatim>\<open>xs.index(x)\<close>), or the length
  of \<open>xs\<close> when there is none.
\<close>

definition index_of :: "'a list \<Rightarrow> 'a \<Rightarrow> nat" where
  "index_of xs x = length (takeWhile (\<lambda>y. y \<noteq> x) xs)"

text \<open>\<open>a\<close> occurs in \<open>xs\<close> strictly before \<open>b\<close> does.\<close>

definition appears_before :: "'a list \<Rightarrow> 'a \<Rightarrow> 'a \<Rightarrow> bool" where
  "appears_before xs a b = (index_of xs a < index_of xs b \<and> index_of xs b < length xs)"

text \<open>The number of edges whose target is \<open>t\<close>, parallel edges counted each.\<close>

definition edges_into :: "edge list \<Rightarrow> node_id \<Rightarrow> nat" where
  "edges_into es t = length (filter (\<lambda>e. target e = t) es)"

text \<open>The targets of the edges that leave \<open>s\<close>, in the order of the edge list.\<close>

definition successors :: "edge list \<Rightarrow> node_id \<Rightarrow> node_id list" where
  "successors es s = map target (filter (\<lambda>e. source e = s) es)"

text \<open>The number of edges into \<open>t\<close> whose source is not in \<open>S\<close>.\<close>

definition remaining :: "edge list \<Rightarrow> node_id set \<Rightarrow> node_id \<Rightarrow> nat" where
  "remaining es S t = length (filter (\<lambda>e. target e = t \<and> source e \<notin> S) es)"

text \<open>
  The invariant of the \<^verbatim>\<open>while queue\<close> loop: the order and the queue together hold no id
  twice and only declared ids; every in-degree is the number of edges from sources not yet
  in the order; the ids in the order or the queue are those whose in-degree is zero; every
  edge into a placed node has its source placed earlier.
\<close>

definition kahn_inv :: "edge list \<Rightarrow> node_id set \<Rightarrow> in_degree \<Rightarrow> node_id list \<Rightarrow> node_id list \<Rightarrow> bool" where
  "kahn_inv es V d q order \<longleftrightarrow>
     distinct (order @ q) \<and> set (order @ q) \<subseteq> V \<and> fst ` set d = V \<and>
     (\<forall>t\<in>V. map_of d t = Some (int (remaining es (set order) t))) \<and>
     (\<forall>t\<in>V. t \<in> set (order @ q) \<longleftrightarrow> remaining es (set order) t = 0) \<and>
     (\<forall>e\<in>set es. target e \<in> set order \<longrightarrow> appears_before order (source e) (target e))"

text \<open>
  The edges as a relation on node ids.
\<close>

definition edge_rel :: "edge list \<Rightarrow> (node_id \<times> node_id) set" where
  "edge_rel es = (\<lambda>e. (source e, target e)) ` set es"

text \<open>
  The elements of a list, each once, in the order of their first occurrence: the key
  order of a dict filled from the list.
\<close>

fun first_occurrences :: "'a list \<Rightarrow> 'a list" where
  "first_occurrences [] = []"
| "first_occurrences (x # xs) = x # removeAll x (first_occurrences xs)"

text \<open>
  The declared ids that no edge points to, each once, in the order in which the node list
  first names them.
\<close>

definition seeds :: "node list \<Rightarrow> edge list \<Rightarrow> node_id list" where
  "seeds ns es = filter (\<lambda>k. edges_into es k = 0) (first_occurrences (map node_id ns))"

text \<open>
  What the loader takes from one entry \<open>l\<close> of the image directory: nothing unless the
  entry is a directory; otherwise every entry of it, a file or a directory alike, whose
  name passes the suffix test, in listing order, each with its path and the label \<open>l\<close>.
\<close>

definition class_samples :: "filesystem \<Rightarrow> string \<Rightarrow> string \<Rightarrow> (string \<times> string) list" where
  "class_samples fs image_dir l =
     (if os_path_isdir fs (os_path_join image_dir l)
      then (case os_listdir fs (os_path_join image_dir l) of
              Inl e \<Rightarrow> []
            | Inr files \<Rightarrow> map (\<lambda>f. (os_path_join (os_path_join image_dir l) f, l)) (filter is_image files))
      else [])"

text \<open>
  The same in the words of the loader's contract, which speaks of files: of the entries
  of a class directory, only those that are not directories themselves.
\<close>

definition file_samples :: "filesystem \<Rightarrow> string \<Rightarrow> string \<Rightarrow> (string \<times> string) list" where
  "file_samples fs image_dir l =
     (if os_path_isdir fs (os_path_join image_dir l)
      then (case os_listdir fs (os_path_join image_dir l) of
              Inl e \<Rightarrow> []
            | Inr files \<Rightarrow>
                map (\<lambda>f. (os_path_join (os_path_join image_dir l) f, l))
                  (filter (\<lambda>f. is_image f \<and> \<not> os_path_isdir fs (os_path_join (os_path_join image_dir l) f))
                     files))
      else [])"

section \<open>Scenarios\<close>

text \<open>
  The directory tree \<^verbatim>\<open>root/cat/{a.jpg,b.png}\<close>, \<^verbatim>\<open>root/dog/{c.jpeg}\<close> with the stray
  file \<^verbatim>\<open>root/readme.txt\<close>, and an empty directory \<^verbatim>\<open>empty\<close> beside it.
\<close>

definition tree_fs :: filesystem where
  "tree_fs =
     \<lparr>os_path_exists = (\<lambda>p. p \<in> set [''root'', ''root/cat'', ''root/dog'', ''root/readme.txt'',
                                       ''root/cat/a.jpg'', ''root/cat/b.png'', ''root/dog/c.jpeg'', ''empty'']),
      os_path_isdir = (\<lambda>p. p \<in> set [''root'', ''root/cat'', ''root/dog'', ''empty'']),
      os_listdir = (\<lambda>p. if p = ''root'' then Inr [''cat'', ''dog'', ''readme.txt'']
                         else if p = ''root/cat'' then Inr [''a.jpg'', ''b.png'']
                         else if p = ''root/dog'' then Inr [''c.jpeg'']
                         else if p = ''empty'' then Inr []
                         else Inl (NotADirectoryError p))\<rparr>"

text \<open>
  A tree in which the class directory \<^verbatim>\<open>root/cat\<close> holds a directory \<^verbatim>\<open>sub.jpg\<close> beside
  the file \<^verbatim>\<open>a.jpg\<close>.
\<close>

definition nested_fs :: filesystem where
  "nested_fs =
     \<lparr>os_path_exists = (\<lambda>p. p \<in> set [''root'', ''root/cat'', ''root/cat/sub.jpg'', ''root/cat/a.jpg'']),
      os_path_isdir = (\<lambda>p. p \<in> set [''root'', ''root/cat'', ''root/cat/sub.jpg'']),
      os_listdir = (\<lambda>p. if p = ''root'' then Inr [''cat'']
                         else if p = ''root/cat'' then Inr [''sub.jpg'', ''a.jpg'']
                         else if p = ''root/cat/sub.jpg'' then Inr []
                         else Inl (NotADirectoryError p))\<rparr>"

text \<open>
  A learner whose extraction and training always succeed, and one whose extraction fails
  on every image.
\<close>

definition demo_learner :: "(nat list, real) learner" where
  "demo_learner = \<lparr>extract_features = (\<lambda>p. Some [0]), train_and_score = (\<lambda>X y. Inr 1)\<rparr>"

definition blind_learner :: "(nat list, real) learner" where
  "blind_learner = \<lparr>extract_features = (\<lambda>p. None), train_and_score = (\<lambda>X y. Inr 1)\<rparr>"

text \<open>
  The graph \<^verbatim>\<open>A(Load) -> B(Model Training) -> C(Export)\<close>.
\<close>

definition abc_nodes :: "node list" where
  "abc_nodes = [\<lparr>node_id = ''A'', label = ''Load''\<rparr>, \<lparr>node_id = ''B'', label = ''Model Training''\<rparr>,
                \<lparr>node_id = ''C'', label = ''Export''\<rparr>]"

definition abc_edges :: "edge list" where
  "abc_edges = [\<lparr>source = ''A'', target = ''B''\<rparr>, \<lparr>source = ''B'', target = ''C''\<rparr>]"

section \<open>Lemmas on the Sequencer\<close>

lemma index_of_less: "index_of xs x < length xs \<longleftrightarrow> x \<in> set xs"
  by (induction xs) (auto simp: index_of_def)

lemma index_of_append_in: "x \<in> set xs \<Longrightarrow> index_of (xs @ ys) x = index_of xs x"
  by (induction xs) (auto simp: index_of_def)

lemma index_of_append_notin: "x \<notin> set xs \<Longrightarrow> index_of (xs @ ys) x = length xs + index_of ys x"
  by (induction xs) (auto simp: index_of_def)

lemma appears_before_append: "appears_before xs a b \<Longrightarrow> appears_before (xs @ ys) a b"
  unfolding appears_before_def
  by (metis index_of_append_in index_of_less length_append less_trans trans_less_add1)

lemma appears_before_snoc:
  "a \<in> set xs \<Longrightarrow> b \<notin> set xs \<Longrightarrow> appears_before (xs @ [b]) a b"
proof -
  assume a: "a \<in> set xs" and b: "b \<notin> set xs"
  have "index_of (xs @ [b]) a = index_of xs a" using a by (rule index_of_append_in)
  moreover have "index_of (xs @ [b]) b = length xs"
    using index_of_append_notin [OF b, of "[b]"] by (simp add: index_of_def)
  moreover have "index_of xs a < length xs" using a by (simp add: index_of_less)
  ultimately show ?thesis by (simp add: appears_before_def)
qed

lemma appears_before_in: "appears_before xs a b \<Longrightarrow> a \<in> set xs \<and> b \<in> set xs"
  unfolding appears_before_def
  by (metis index_of_less less_trans)

lemma init_keys_gen:
  "fst ` set (foldl (\<lambda>d n. AList.update (node_id n) v d) d0 ns) = fst ` set d0 \<union> node_id ` set ns"
  by (induction ns arbitrary: d0) (auto simp: dom_update)

lemma init_distinct_gen:
  "distinct (map fst d0) \<Longrightarrow> distinct (map fst (foldl (\<lambda>d n. AList.update (node_id n) v d) d0 ns))"
  by (induction ns arbitrary: d0) (auto simp: distinct_update)

lemma init_zero_gen:
  "(\<forall>p\<in>set d0. snd p = (0::int)) \<Longrightarrow> \<forall>p\<in>set (foldl (\<lambda>d n. AList.update (node_id n) 0 d) d0 ns). snd p = 0"
proof (induction ns arbitrary: d0)
  case Nil
  then show ?case by simp
next
  case (Cons n ns)
  have "\<forall>p\<in>set (AList.update (node_id n) 0 d0). snd p = 0"
    using Cons.prems by (induction d0) auto
  from Cons.IH [OF this] show ?case by simp
qed

lemma init_in_degree_keys: "fst ` set (init_in_degree ns) = node_id ` set ns"
  by (simp add: init_in_degree_def init_keys_gen)

lemma init_in_degree_distinct: "distinct (map fst (init_in_degree ns))"
  by (simp add: init_in_degree_def init_distinct_gen)

lemma init_in_degree_zero: "k \<in> node_id ` set ns \<Longrightarrow> map_of (init_in_degree ns) k = Some 0"
proof -
  assume "k \<in> node_id ` set ns"
  then have "k \<in> fst ` set (init_in_degree ns)" by (simp add: init_in_degree_keys)
  then obtain v where kv: "(k, v) \<in> set (init_in_degree ns)" by auto
  have "\<forall>p\<in>set (init_in_degree ns). snd p = 0"
    unfolding init_in_degree_def by (rule init_zero_gen) simp
  with kv have "v = 0" by auto
  with kv show ?thesis using init_in_degree_distinct by simp
qed

lemma update_present_keys:
  "map_of d k = Some v \<Longrightarrow> map fst (AList.update k w d) = map fst d"
  by (induction d) (auto split: if_splits)

lemma add_edges_Inr:
  "add_edges es (g0, d0) = Inr (g, d) \<Longrightarrow>
     map fst d = map fst d0 \<and>
     (\<forall>s. g s = g0 s @ successors es s) \<and>
     (\<forall>t v. map_of d0 t = Some v \<longrightarrow> map_of d t = Some (v + int (edges_into es t))) \<and>
     target ` set es \<subseteq> fst ` set d0"
proof (induction es arbitrary: g0 d0)
  case Nil
  then show ?case by (simp add: successors_def edges_into_def)
next
  case (Cons e es)
  from Cons.prems obtain v where v: "map_of d0 (target e) = Some v"
    by (auto split: option.splits)
  let ?g = "g0(source e := g0 (source e) @ [target e])"
  let ?d = "AList.update (target e) (v + 1) d0"
  from Cons.prems v have "add_edges es (?g, ?d) = Inr (g, d)" by simp
  from Cons.IH [OF this]
  have keys: "map fst d = map fst ?d"
    and succ: "\<forall>s. g s = ?g s @ successors es s"
    and deg: "\<forall>t w. map_of ?d t = Some w \<longrightarrow> map_of d t = Some (w + int (edges_into es t))"
    and tgt: "target ` set es \<subseteq> fst ` set ?d"
    by blast+
  have k0: "map fst ?d = map fst d0" using v by (rule update_present_keys)
  have c1: "map fst d = map fst d0" using keys k0 by simp
  have c2: "\<forall>s. g s = g0 s @ successors (e # es) s"
    using succ by (simp add: successors_def)
  have c3: "\<forall>t w. map_of d0 t = Some w \<longrightarrow> map_of d t = Some (w + int (edges_into (e # es) t))"
  proof (intro allI impI)
    fix t w assume w: "map_of d0 t = Some w"
    show "map_of d t = Some (w + int (edges_into (e # es) t))"
    proof (cases "t = target e")
      case True
      with v w have "w = v" by simp
      have "map_of ?d t = Some (v + 1)" using True by (simp add: update_conv)
      with deg have "map_of d t = Some (v + 1 + int (edges_into es t))" by blast
      then show ?thesis using True \<open>w = v\<close> by (simp add: edges_into_def)
    next
      case False
      then have "map_of ?d t = Some w" using w by (simp add: update_conv)
      with deg have "map_of d t = Some (w + int (edges_into es t))" by blast
      then show ?thesis using False by (auto simp: edges_into_def)
    qed
  qed
  have "target e \<in> fst ` set d0" using map_of_SomeD [OF v] by force
  moreover have "fst ` set ?d = fst ` set d0"
    using k0 by (metis set_map)
  ultimately have c4: "target ` set (e # es) \<subseteq> fst ` set d0" using tgt by auto
  from c1 c2 c3 c4 show ?case by blast
qed

lemma add_edges_total:
  "target ` set es \<subseteq> fst ` set d0 \<Longrightarrow> \<exists>g d. add_edges es (g0, d0) = Inr (g, d)"
proof (induction es arbitrary: g0 d0)
  case Nil
  then show ?case by simp
next
  case (Cons e es)
  from Cons.prems have "target e \<in> fst ` set d0" by simp
  then obtain v where v: "map_of d0 (target e) = Some v"
    by (metis domD dom_map_of_conv_image_fst)
  let ?d = "AList.update (target e) (v + 1) d0"
  have "fst ` set ?d = fst ` set d0"
    using update_present_keys [OF v] by (metis set_map)
  with Cons.prems have "target ` set es \<subseteq> fst ` set ?d" by simp
  from Cons.IH [OF this] show ?case using v by simp
qed

lemma add_edges_Inl:
  "add_edges es (g0, d0) = Inl x \<Longrightarrow> \<exists>e\<in>set es. target e \<notin> fst ` set d0 \<and> x = KeyError (target e)"
proof (induction es arbitrary: g0 d0)
  case Nil
  then show ?case by simp
next
  case (Cons e es)
  show ?case
  proof (cases "map_of d0 (target e)")
    case None
    then have "target e \<notin> fst ` set d0" by (simp add: map_of_eq_None_iff)
    moreover from None Cons.prems have "x = KeyError (target e)" by simp
    ultimately show ?thesis by auto
  next
    case (Some v)
    let ?d = "AList.update (target e) (v + 1) d0"
    from Some Cons.prems
    have "add_edges es (g0(source e := g0 (source e) @ [target e]), ?d) = Inl x" by simp
    from Cons.IH [OF this] obtain e' where "e' \<in> set es" "target e' \<notin> fst ` set ?d" "x = KeyError (target e')"
      by blast
    moreover have "fst ` set ?d = fst ` set d0"
      using update_present_keys [OF Some] by (metis set_map)
    ultimately show ?thesis by auto
  qed
qed

lemma relax_spec:
  "set ts \<subseteq> fst ` set d \<Longrightarrow>
   \<exists>d' news. relax ts (d, q) = Inr (d', q @ news) \<and> map fst d' = map fst d \<and>
     (\<forall>t v. map_of d t = Some v \<longrightarrow> map_of d' t = Some (v - int (count_list ts t))) \<and>
     distinct news \<and>
     set news = {t \<in> set ts. \<exists>v. map_of d t = Some v \<and> 1 \<le> v \<and> v \<le> int (count_list ts t)}"
proof (induction ts arbitrary: d q)
  case Nil
  then show ?case by simp
next
  case (Cons t ts)
  from Cons.prems have "t \<in> fst ` set d" by simp
  then obtain v where v: "map_of d t = Some v"
    by (metis domD dom_map_of_conv_image_fst)
  let ?d = "AList.update t (v - 1) d"
  let ?q = "if v - 1 = 0 then q @ [t] else q"
  have keys: "map fst ?d = map fst d" using v by (rule update_present_keys)
  then have "fst ` set ?d = fst ` set d" by (metis set_map)
  with Cons.prems have "set ts \<subseteq> fst ` set ?d" by simp
  from Cons.IH [OF this, of ?q] obtain d' news1 where
    run: "relax ts (?d, ?q) = Inr (d', ?q @ news1)"
    and k1: "map fst d' = map fst ?d"
    and deg: "\<forall>u w. map_of ?d u = Some w \<longrightarrow> map_of d' u = Some (w - int (count_list ts u))"
    and dist: "distinct news1"
    and news1: "set news1 = {u \<in> set ts. \<exists>w. map_of ?d u = Some w \<and> 1 \<le> w \<and> w \<le> int (count_list ts u)}"
    by blast
  define news where "news = (if v = 1 then [t] else []) @ news1"
  have q: "?q @ news1 = q @ news" by (simp add: news_def)
  have r: "relax (t # ts) (d, q) = Inr (d', q @ news)"
    using v run q by simp
  have c2: "map fst d' = map fst d" using k1 keys by simp
  have at_t: "map_of ?d t = Some (v - 1)" by (simp add: update_conv)
  have at_u: "map_of ?d u = map_of d u" if "u \<noteq> t" for u
    using that by (simp add: update_conv)
  have c3: "\<forall>u w. map_of d u = Some w \<longrightarrow> map_of d' u = Some (w - int (count_list (t # ts) u))"
  proof (intro allI impI)
    fix u w assume w: "map_of d u = Some w"
    show "map_of d' u = Some (w - int (count_list (t # ts) u))"
    proof (cases "u = t")
      case True
      with v w have "w = v" by simp
      from deg at_t have "map_of d' t = Some (v - 1 - int (count_list ts t))" by blast
      then show ?thesis using True \<open>w = v\<close> by simp
    next
      case False
      with w have "map_of ?d u = Some w" by (simp add: at_u)
      with deg have "map_of d' u = Some (w - int (count_list ts u))" by blast
      then show ?thesis using False by simp
    qed
  qed
  have t_notin: "t \<notin> set news1" if "v = 1"
  proof
    assume "t \<in> set news1"
    with news1 obtain w where "map_of ?d t = Some w" "1 \<le> w" by auto
    with at_t that show False by simp
  qed
  have c4: "distinct news" using dist t_notin by (simp add: news_def)
  have c5: "set news = {u \<in> set (t # ts). \<exists>w. map_of d u = Some w \<and> 1 \<le> w \<and> w \<le> int (count_list (t # ts) u)}"
    (is "_ = ?R")
  proof (intro set_eqI iffI)
    fix u assume "u \<in> set news"
    then consider "v = 1" "u = t" | "u \<in> set news1" by (auto simp: news_def split: if_splits)
    then show "u \<in> ?R"
    proof cases
      case 1
      then show ?thesis using v by simp
    next
      case 2
      with news1 obtain w where u: "u \<in> set ts" and w: "map_of ?d u = Some w" "1 \<le> w" "w \<le> int (count_list ts u)"
        by auto
      show ?thesis
      proof (cases "u = t")
        case True
        with w at_t have "w = v - 1" by simp
        with w True v show ?thesis by simp
      next
        case False
        with w have "map_of d u = Some w" by (simp add: at_u)
        with w u False show ?thesis by simp
      qed
    qed
  next
    fix u assume "u \<in> ?R"
    then obtain w where u: "u \<in> set (t # ts)" and w: "map_of d u = Some w" "1 \<le> w" "w \<le> int (count_list (t # ts) u)"
      by auto
    show "u \<in> set news"
    proof (cases "u = t")
      case True
      with v w have wv: "w = v" by simp
      show ?thesis
      proof (cases "v = 1")
        case True
        then show ?thesis using \<open>u = t\<close> by (simp add: news_def)
      next
        case False
        with w wv True have b: "1 \<le> v - 1" "v - 1 \<le> int (count_list ts t)" by simp_all
        then have "count_list ts t \<noteq> 0" by auto
        then have "t \<in> set ts" by (simp add: count_list_0_iff)
        with b at_t news1 have "t \<in> set news1" by auto
        then show ?thesis using True by (simp add: news_def)
      qed
    next
      case False
      with u have "u \<in> set ts" by simp
      moreover from False w have "map_of ?d u = Some w" by (simp add: at_u)
      moreover from False w have "w \<le> int (count_list ts u)" by simp
      ultimately have "u \<in> set news1" using news1 w by auto
      then show ?thesis by (simp add: news_def)
    qed
  qed
  from r c2 c3 c4 c5 show ?case by blast
qed

lemma remaining_insert:
  "n \<notin> S \<Longrightarrow>
   remaining es S t = remaining es (insert n S) t + length (filter (\<lambda>e. target e = t \<and> source e = n) es)"
  by (induction es) (auto simp: remaining_def)

lemma count_successors:
  "count_list (successors es n) t = length (filter (\<lambda>e. target e = t \<and> source e = n) es)"
  by (induction es) (auto simp: successors_def)

lemma remaining_0: "remaining es S t = 0 \<longleftrightarrow> (\<forall>e\<in>set es. target e = t \<longrightarrow> source e \<in> S)"
  by (auto simp: remaining_def filter_empty_conv)

lemma successors_subset: "set (successors es n) \<subseteq> target ` set es"
  by (auto simp: successors_def)

lemma kahn_step:
  assumes K: "kahn_inv es V d (n # q) order" and tg: "target ` set es \<subseteq> V"
  shows "\<exists>d' q'. relax (successors es n) (d, q) = Inr (d', q') \<and> kahn_inv es V d' q' (order @ [n])"
proof -
  let ?ts = "successors es n"
  let ?r = "\<lambda>t. remaining es (set order) t"
  let ?r' = "\<lambda>t. remaining es (set (order @ [n])) t"
  let ?c = "\<lambda>t. count_list ?ts t"
  note Kd = K [unfolded kahn_inv_def]
  from Kd have dist: "distinct (order @ n # q)" by (elim conjE)
  from Kd have sub: "set (order @ n # q) \<subseteq> V" by (elim conjE)
  from Kd have keys: "fst ` set d = V" by (elim conjE)
  from Kd have deg: "\<forall>t\<in>V. map_of d t = Some (int (?r t))" by (elim conjE)
  from Kd have zero: "\<forall>t\<in>V. t \<in> set (order @ n # q) \<longleftrightarrow> ?r t = 0" by (elim conjE)
  from Kd have prec: "\<forall>e\<in>set es. target e \<in> set order \<longrightarrow> appears_before order (source e) (target e)"
    by (elim conjE)
  have n_new: "n \<notin> set order" using dist by simp
  have nV: "n \<in> V" using sub by simp
  have tsV: "set ?ts \<subseteq> V" using successors_subset tg by blast
  have split: "?r t = ?r' t + ?c t" for t
    using remaining_insert [OF n_new, of es t] by (simp add: count_successors)
  from tsV keys have "set ?ts \<subseteq> fst ` set d" by simp
  from relax_spec [OF this, of q] obtain d' news where
    run: "relax ?ts (d, q) = Inr (d', q @ news)"
    and k': "map fst d' = map fst d"
    and deg': "\<forall>t v. map_of d t = Some v \<longrightarrow> map_of d' t = Some (v - int (?c t))"
    and dnews: "distinct news"
    and snews: "set news = {t \<in> set ?ts. \<exists>v. map_of d t = Some v \<and> 1 \<le> v \<and> v \<le> int (?c t)}"
    by blast
  have news_char: "t \<in> set news \<longleftrightarrow> t \<in> set ?ts \<and> 1 \<le> ?r t \<and> ?r t \<le> ?c t" for t
  proof (cases "t \<in> V")
    case True
    with deg have "map_of d t = Some (int (?r t))" by blast
    then show ?thesis using snews by auto
  next
    case False
    with tsV have "t \<notin> set ?ts" by blast
    then show ?thesis using snews by simp
  qed
  have newsV: "set news \<subseteq> V" using news_char tsV by blast
  have fresh: "t \<notin> set (order @ n # q)" if "t \<in> set news" for t
  proof
    assume "t \<in> set (order @ n # q)"
    moreover have "t \<in> V" using that newsV by blast
    ultimately have "?r t = 0" using zero by blast
    with that news_char show False by simp
  qed
  have disj: "set (order @ n # q) \<inter> set news = {}" using fresh by blast
  have "distinct ((order @ n # q) @ news)"
    using dist dnews disj by (simp only: distinct_append)
  then have c1: "distinct ((order @ [n]) @ q @ news)" by simp
  have c2: "set ((order @ [n]) @ q @ news) \<subseteq> V" using sub newsV by auto
  have c3: "fst ` set d' = V" using k' keys by (metis set_map)
  have c4: "\<forall>t\<in>V. map_of d' t = Some (int (?r' t))"
  proof
    fix t assume "t \<in> V"
    with deg have "map_of d t = Some (int (?r t))" by blast
    with deg' have "map_of d' t = Some (int (?r t) - int (?c t))" by blast
    then show "map_of d' t = Some (int (?r' t))" using split [of t] by simp
  qed
  have c5: "\<forall>t\<in>V. t \<in> set ((order @ [n]) @ q @ news) \<longleftrightarrow> ?r' t = 0"
  proof
    fix t assume tV: "t \<in> V"
    show "t \<in> set ((order @ [n]) @ q @ news) \<longleftrightarrow> ?r' t = 0"
    proof
      assume "t \<in> set ((order @ [n]) @ q @ news)"
      then consider "t \<in> set (order @ n # q)" | "t \<in> set news" by auto
      then show "?r' t = 0"
      proof cases
        case 1
        with zero tV have "?r t = 0" by blast
        then show ?thesis using split [of t] by simp
      next
        case 2
        then have "?r t \<le> ?c t" using news_char by blast
        then show ?thesis using split [of t] by simp
      qed
    next
      assume z: "?r' t = 0"
      then have rc: "?r t = ?c t" using split [of t] by simp
      show "t \<in> set ((order @ [n]) @ q @ news)"
      proof (cases "?c t = 0")
        case True
        with rc have "?r t = 0" by simp
        with zero tV have "t \<in> set (order @ n # q)" by blast
        then show ?thesis by auto
      next
        case False
        then have "t \<in> set ?ts" by (simp add: count_list_0_iff)
        moreover from False rc have "1 \<le> ?r t" "?r t \<le> ?c t" by simp_all
        ultimately have "t \<in> set news" using news_char by blast
        then show ?thesis by simp
      qed
    qed
  qed
  have c6: "\<forall>e\<in>set es. target e \<in> set (order @ [n]) \<longrightarrow> appears_before (order @ [n]) (source e) (target e)"
  proof (intro ballI impI)
    fix e assume e: "e \<in> set es" and t: "target e \<in> set (order @ [n])"
    show "appears_before (order @ [n]) (source e) (target e)"
    proof (cases "target e \<in> set order")
      case True
      with prec e have "appears_before order (source e) (target e)" by blast
      then show ?thesis by (rule appears_before_append)
    next
      case False
      with t have tn: "target e = n" by simp
      have "n \<in> set (order @ n # q)" by simp
      with zero nV have "?r n = 0" by blast
      then have "source e \<in> set order" using e tn by (simp add: remaining_0)
      then show ?thesis using n_new tn by (simp add: appears_before_snoc)
    qed
  qed
  have "kahn_inv es V d' (q @ news) (order @ [n])"
    unfolding kahn_inv_def by (intro conjI c1 c2 c3 c4 c5 c6)
  with run show ?thesis by blast
qed

lemma kahn_drain:
  assumes tg: "target ` set es \<subseteq> V"
  shows "(\<forall>s. g s = successors es s) \<Longrightarrow> kahn_inv es V d q order \<Longrightarrow>
         \<exists>res d'. drain g d q order = Inr res \<and> kahn_inv es V d' [] res"
proof (induction g d q order rule: drain.induct)
  case (1 g d order)
  then show ?case by auto
next
  case (2 g d n q order)
  from "2.prems" have gn: "g n = successors es n" by simp
  from kahn_step [OF "2.prems"(2) tg] obtain d' q' where
    run: "relax (successors es n) (d, q) = Inr (d', q')"
    and K': "kahn_inv es V d' q' (order @ [n])"
    by blast
  from run gn have run': "relax (g n) (d, q) = Inr (d', q')" by simp
  from "2.IH" [OF run' refl "2.prems"(1) K'] obtain res d'' where
    "drain g d' q' (order @ [n]) = Inr res" and "kahn_inv es V d'' [] res"
    by blast
  then show ?case using run' by auto
qed

lemma edges_into_remaining: "int (edges_into es t) = int (remaining es {} t)"
  by (simp add: edges_into_def remaining_def)

lemma ready_queue_set:
  "distinct (map fst d) \<Longrightarrow> set (ready_queue d) = {k. map_of d k = Some 0}"
  by (auto simp: ready_queue_def image_iff)

lemma ready_queue_distinct: "distinct (map fst d) \<Longrightarrow> distinct (ready_queue d)"
  by (simp add: ready_queue_def distinct_map_filter)

lemma kahn_init:
  assumes run: "add_edges es (\<lambda>_. [], init_in_degree ns) = Inr (g, d)"
  shows "(\<forall>s. g s = successors es s) \<and> target ` set es \<subseteq> node_id ` set ns \<and>
         kahn_inv es (node_id ` set ns) d (ready_queue d) []"
proof -
  let ?V = "node_id ` set ns"
  note A = add_edges_Inr [OF run]
  from A have keys: "map fst d = map fst (init_in_degree ns)" by (elim conjE)
  from A have succ: "\<forall>s. g s = [] @ successors es s" by (elim conjE)
  from A have deg: "\<forall>t v. map_of (init_in_degree ns) t = Some v \<longrightarrow> map_of d t = Some (v + int (edges_into es t))"
    by (elim conjE)
  from A have tg: "target ` set es \<subseteq> fst ` set (init_in_degree ns)" by (elim conjE)
  have dk: "distinct (map fst d)" using keys init_in_degree_distinct by simp
  have kV: "fst ` set d = ?V" using keys init_in_degree_keys by (metis set_map)
  have degV: "\<forall>t\<in>?V. map_of d t = Some (int (remaining es (set []) t))"
  proof
    fix t assume "t \<in> ?V"
    then have "map_of (init_in_degree ns) t = Some 0" by (rule init_in_degree_zero)
    with deg have "map_of d t = Some (0 + int (edges_into es t))" by blast
    then show "map_of d t = Some (int (remaining es (set []) t))"
      by (simp add: edges_into_remaining)
  qed
  have c1: "distinct ([] @ ready_queue d)" using dk by (simp add: ready_queue_distinct)
  have rq: "set (ready_queue d) = {k. map_of d k = Some 0}" using dk by (rule ready_queue_set)
  have c2: "set ([] @ ready_queue d) \<subseteq> ?V"
  proof
    fix k assume "k \<in> set ([] @ ready_queue d)"
    with rq have "map_of d k = Some 0" by simp
    then have "k \<in> fst ` set d" using map_of_SomeD by force
    with kV show "k \<in> ?V" by simp
  qed
  have c5: "\<forall>t\<in>?V. t \<in> set ([] @ ready_queue d) \<longleftrightarrow> remaining es (set []) t = 0"
  proof
    fix t assume "t \<in> ?V"
    with degV have "map_of d t = Some (int (remaining es (set []) t))" by blast
    then show "t \<in> set ([] @ ready_queue d) \<longleftrightarrow> remaining es (set []) t = 0"
      using rq by simp
  qed
  have c6: "\<forall>e\<in>set es. target e \<in> set [] \<longrightarrow> appears_before [] (source e) (target e)" by simp
  have K: "kahn_inv es ?V d (ready_queue d) []"
    unfolding kahn_inv_def by (intro conjI c1 c2 kV degV c5 c6)
  from succ have "\<forall>s. g s = successors es s" by simp
  moreover from tg have "target ` set es \<subseteq> ?V" by (simp add: init_in_degree_keys)
  ultimately show ?thesis using K by blast
qed

lemma build_execution_order_Inr:
  assumes "build_execution_order ns es = Inr res"
  shows "distinct res \<and> set res \<subseteq> node_id ` set ns \<and> target ` set es \<subseteq> node_id ` set ns \<and>
         (\<forall>t\<in>node_id ` set ns. t \<in> set res \<longleftrightarrow> (\<forall>e\<in>set es. target e = t \<longrightarrow> source e \<in> set res)) \<and>
         (\<forall>e\<in>set es. target e \<in> set res \<longrightarrow> appears_before res (source e) (target e))"
proof -
  from assms obtain g d where run: "add_edges es (\<lambda>_. [], init_in_degree ns) = Inr (g, d)"
    and dr: "drain g d (ready_queue d) [] = Inr res"
    by (auto simp: build_execution_order_def split: sum.splits)
  note I = kahn_init [OF run]
  from I have g: "\<forall>s. g s = successors es s" by (elim conjE)
  from I have tg: "target ` set es \<subseteq> node_id ` set ns" by (elim conjE)
  from I have K0: "kahn_inv es (node_id ` set ns) d (ready_queue d) []" by (elim conjE)
  from kahn_drain [OF tg g K0] dr obtain d' where K: "kahn_inv es (node_id ` set ns) d' [] res"
    by auto
  note Kd = K [unfolded kahn_inv_def]
  from Kd have c1: "distinct (res @ [])" by (elim conjE)
  from Kd have c2: "set (res @ []) \<subseteq> node_id ` set ns" by (elim conjE)
  from Kd have c5: "\<forall>t\<in>node_id ` set ns. t \<in> set (res @ []) \<longleftrightarrow> remaining es (set res) t = 0" by (elim conjE)
  from Kd have c6: "\<forall>e\<in>set es. target e \<in> set res \<longrightarrow> appears_before res (source e) (target e)" by (elim conjE)
  from c5 have c5': "\<forall>t\<in>node_id ` set ns. t \<in> set res \<longleftrightarrow> (\<forall>e\<in>set es. target e = t \<longrightarrow> source e \<in> set res)"
    by (simp add: remaining_0)
  from c1 c2 tg c5' c6 show ?thesis by simp
qed

lemma build_execution_order_total:
  assumes "target ` set es \<subseteq> node_id ` set ns"
  shows "\<exists>res. build_execution_order ns es = Inr res"
proof -
  from assms have "target ` set es \<subseteq> fst ` set (init_in_degree ns)"
    by (simp add: init_in_degree_keys)
  from add_edges_total [OF this] obtain g d where run: "add_edges es (\<lambda>_. [], init_in_degree ns) = Inr (g, d)"
    by blast
  note I = kahn_init [OF run]
  from I have g: "\<forall>s. g s = successors es s" by (elim conjE)
  from I have tg: "target ` set es \<subseteq> node_id ` set ns" by (elim conjE)
  from I have K0: "kahn_inv es (node_id ` set ns) d (ready_queue d) []" by (elim conjE)
  from kahn_drain [OF tg g K0] obtain res where "drain g d (ready_queue d) [] = Inr res"
    by blast
  with run show ?thesis by (simp add: build_execution_order_def)
qed

lemma all_placed_when_acyclic:
  assumes res: "build_execution_order ns es = Inr res"
    and src: "\<forall>e\<in>set es. source e \<in> node_id ` set ns"
    and acyc: "acyclic (edge_rel es)"
  shows "node_id ` set ns \<subseteq> set res"
proof (rule ccontr)
  let ?V = "node_id ` set ns"
  let ?Q = "?V - set res"
  assume "\<not> ?V \<subseteq> set res"
  then obtain x where x: "x \<in> ?Q" by blast
  note R = build_execution_order_Inr [OF res]
  from R have placed: "\<forall>t\<in>?V. t \<in> set res \<longleftrightarrow> (\<forall>e\<in>set es. target e = t \<longrightarrow> source e \<in> set res)"
    by (elim conjE)
  have "finite (edge_rel es)" by (simp add: edge_rel_def)
  with acyc have "wf (edge_rel es)" by (simp add: finite_acyclic_wf)
  from wfE_min [OF this x] obtain z where z: "z \<in> ?Q"
    and zmin: "\<And>y. (y, z) \<in> edge_rel es \<Longrightarrow> y \<notin> ?Q"
    by blast
  have "\<forall>e\<in>set es. target e = z \<longrightarrow> source e \<in> set res"
  proof (intro ballI impI)
    fix e assume e: "e \<in> set es" and t: "target e = z"
    then have "(source e, z) \<in> edge_rel es" by (force simp: edge_rel_def)
    then have "source e \<notin> ?Q" by (rule zmin)
    moreover from src e have "source e \<in> ?V" by blast
    ultimately show "source e \<in> set res" by blast
  qed
  moreover from z have "z \<in> ?V" by blast
  ultimately have "z \<in> set res" using placed by blast
  with z show False by blast
qed

lemma follows_edges:
  assumes prec: "\<forall>e\<in>set es. target e \<in> set res \<longrightarrow> appears_before res (source e) (target e)"
  shows "(a, b) \<in> (edge_rel es)\<^sup>+ \<Longrightarrow> b \<in> set res \<Longrightarrow> index_of res a < index_of res b"
proof (induction rule: trancl_induct)
  case (base y)
  then obtain e where "e \<in> set es" "source e = a" "target e = y" by (auto simp: edge_rel_def)
  with prec base.prems have "appears_before res a y" by blast
  then show ?case by (simp add: appears_before_def)
next
  case (step y z)
  from step.hyps(2) obtain e where "e \<in> set es" "source e = y" "target e = z" by (auto simp: edge_rel_def)
  with prec step.prems have ab: "appears_before res y z" by blast
  then have "y \<in> set res" by (simp add: appears_before_in)
  from step.IH [OF this] ab show ?case by (simp add: appears_before_def)
qed

lemma init_key_order_gen:
  "map fst (foldl (\<lambda>d n. AList.update (node_id n) v d) d0 ns) =
   map fst d0 @ filter (\<lambda>k. k \<notin> fst ` set d0) (first_occurrences (map node_id ns))"
proof (induction ns arbitrary: d0)
  case Nil
  then show ?case by simp
next
  case (Cons n ns)
  let ?k = "node_id n"
  let ?d = "AList.update ?k v d0"
  let ?rest = "first_occurrences (map node_id ns)"
  have IH: "map fst (foldl (\<lambda>d n. AList.update (node_id n) v d) ?d ns) =
            map fst ?d @ filter (\<lambda>k. k \<notin> fst ` set ?d) ?rest"
    by (rule Cons.IH)
  show ?case
  proof (cases "?k \<in> fst ` set d0")
    case True
    then have k: "map fst ?d = map fst d0" by (simp add: update_keys)
    then have ks: "fst ` set ?d = fst ` set d0" by (metis set_map)
    have "filter (\<lambda>k. k \<notin> fst ` set d0) (removeAll ?k ?rest) = filter (\<lambda>k. k \<notin> fst ` set d0) ?rest"
      using True by (auto simp: removeAll_filter_not_eq intro: filter_cong)
    with IH k ks True show ?thesis by simp
  next
    case False
    then have k: "map fst ?d = map fst d0 @ [?k]" by (simp add: update_keys)
    then have ks: "fst ` set ?d = insert ?k (fst ` set d0)" by (metis dom_update insert_is_Un)
    have "filter (\<lambda>k. k \<notin> insert ?k (fst ` set d0)) ?rest = filter (\<lambda>k. k \<notin> fst ` set d0) (removeAll ?k ?rest)"
      by (auto simp: removeAll_filter_not_eq intro: filter_cong)
    with IH k ks False show ?thesis by simp
  qed
qed

lemma init_in_degree_key_order:
  "map fst (init_in_degree ns) = first_occurrences (map node_id ns)"
  by (simp add: init_in_degree_def init_key_order_gen)

lemma ready_queue_filter:
  "distinct (map fst d) \<Longrightarrow> ready_queue d = filter (\<lambda>k. map_of d k = Some 0) (map fst d)"
proof (induction d)
  case Nil
  then show ?case by (simp add: ready_queue_def)
next
  case (Cons p d)
  obtain k v where p: "p = (k, v)" by (cases p)
  from Cons.prems p have knew: "k \<notin> fst ` set d" and dd: "distinct (map fst d)" by auto
  have "filter (\<lambda>x. map_of (p # d) x = Some 0) (map fst d) = filter (\<lambda>x. map_of d x = Some 0) (map fst d)"
    using knew p by (intro filter_cong) auto
  with Cons.IH [OF dd] p show ?case by (simp add: ready_queue_def)
qed

lemma ready_queue_seeds:
  assumes run: "add_edges es (\<lambda>_. [], init_in_degree ns) = Inr (g, d)"
  shows "ready_queue d = seeds ns es"
proof -
  note A = add_edges_Inr [OF run]
  from A have keys: "map fst d = map fst (init_in_degree ns)" by (elim conjE)
  from A have deg: "\<forall>t v. map_of (init_in_degree ns) t = Some v \<longrightarrow> map_of d t = Some (v + int (edges_into es t))"
    by (elim conjE)
  have dk: "distinct (map fst d)" using keys init_in_degree_distinct by simp
  have ko: "map fst d = first_occurrences (map node_id ns)"
    using keys by (simp add: init_in_degree_key_order)
  have "filter (\<lambda>k. map_of d k = Some 0) (map fst d) = filter (\<lambda>k. edges_into es k = 0) (map fst d)"
  proof (rule filter_cong [OF refl])
    fix k assume "k \<in> set (map fst d)"
    then have "k \<in> node_id ` set ns" using keys init_in_degree_keys by (metis set_map)
    then have "map_of (init_in_degree ns) k = Some 0" by (rule init_in_degree_zero)
    with deg have "map_of d k = Some (0 + int (edges_into es k))" by blast
    then show "(map_of d k = Some 0) = (edges_into es k = 0)" by simp
  qed
  with ready_queue_filter [OF dk] ko show ?thesis by (simp add: seeds_def)
qed

lemma relax_appends: "relax ts (d, q) = Inr (d', q') \<Longrightarrow> \<exists>news. q' = q @ news"
proof (induction ts arbitrary: d q)
  case Nil
  then show ?case by simp
next
  case (Cons t ts)
  from Cons.prems obtain v where v: "map_of d t = Some v" by (auto split: option.splits)
  let ?q = "if v - 1 = 0 then q @ [t] else q"
  from Cons.prems v have "relax ts (AList.update t (v - 1) d, ?q) = Inr (d', q')" by simp
  from Cons.IH [OF this] obtain news where "q' = ?q @ news" by blast
  then show ?case by (cases "v - 1 = 0") auto
qed

lemma drain_fifo: "drain g d q acc = Inr res \<Longrightarrow> \<exists>rest. res = acc @ q @ rest"
proof (induction g d q acc rule: drain.induct)
  case (1 g d order)
  then show ?case by simp
next
  case (2 g d n q order)
  from "2.prems" obtain d' q' where run: "relax (g n) (d, q) = Inr (d', q')"
    and dr: "drain g d' q' (order @ [n]) = Inr res"
    by (auto split: sum.splits)
  from "2.IH" [OF run refl dr] obtain rest where r: "res = (order @ [n]) @ q' @ rest" by blast
  from relax_appends [OF run] obtain news where "q' = q @ news" by blast
  with r show ?case by simp
qed

section \<open>Lemmas on the gate, the loader and the scenarios\<close>

lemma abc_order: "build_execution_order abc_nodes abc_edges = Inr [''A'', ''B'', ''C'']"
  by (simp add: build_execution_order_def init_in_degree_def ready_queue_def abc_nodes_def abc_edges_def)

lemma abc_labels: "id_to_label abc_nodes = [(''A'', ''Load''), (''B'', ''Model Training''), (''C'', ''Export'')]"
  by (simp add: id_to_label_def abc_nodes_def)

lemma is_image_eval:
  "is_image ''a.jpg''" "is_image ''b.png''" "is_image ''c.jpeg''" "\<not> is_image ''readme.txt''"
  by (simp_all add: is_image_def lower_def lower_char_def endswith_def)

lemma tree_dataset:
  "load_dataset tree_fs ''root'' =
     Inr ([''root/cat/a.jpg'', ''root/cat/b.png'', ''root/dog/c.jpeg''], [''cat'', ''cat'', ''dog''])"
  by (simp add: load_dataset_def tree_fs_def os_path_join_def is_image_eval)

lemma empty_dataset: "load_dataset tree_fs ''empty'' = Inr ([], [])"
  by (simp add: load_dataset_def tree_fs_def)

lemma scan_class_spec:
  "scan_class cd l files (ps, ls) =
     (ps @ map (os_path_join cd) (filter is_image files), ls @ replicate (length (filter is_image files)) l)"
  by (induction files arbitrary: ps ls) (simp_all add: replicate_app_Cons_same)

lemma zip_map_replicate: "zip (map f xs) (replicate (length xs) l) = map (\<lambda>x. (f x, l)) xs"
  by (induction xs) simp_all

lemma scan_root_spec:
  "scan_root fs image_dir entries (ps, ls) = Inr (ps', ls') \<Longrightarrow> length ps = length ls \<Longrightarrow>
   length ps' = length ls' \<and> zip ps' ls' = zip ps ls @ concat (map (class_samples fs image_dir) entries)"
proof (induction entries arbitrary: ps ls)
  case Nil
  then show ?case by simp
next
  case (Cons l entries)
  let ?cd = "os_path_join image_dir l"
  show ?case
  proof (cases "os_path_isdir fs ?cd")
    case False
    with Cons.prems have "scan_root fs image_dir entries (ps, ls) = Inr (ps', ls')" by simp
    from Cons.IH [OF this Cons.prems(2)] False show ?thesis by (simp add: class_samples_def)
  next
    case True
    with Cons.prems obtain files where files: "os_listdir fs ?cd = Inr files"
      by (auto simp: Let_def split: sum.splits)
    let ?new = "filter is_image files"
    let ?ps = "ps @ map (os_path_join ?cd) ?new"
    let ?ls = "ls @ replicate (length ?new) l"
    from Cons.prems True files have run: "scan_root fs image_dir entries (?ps, ?ls) = Inr (ps', ls')"
      by (simp add: scan_class_spec)
    have len: "length ?ps = length ?ls" using Cons.prems(2) by simp
    have z: "zip ?ps ?ls = zip ps ls @ class_samples fs image_dir l"
      using Cons.prems(2) True files by (simp add: class_samples_def zip_map_replicate)
    from Cons.IH [OF run len] z show ?thesis by simp
  qed
qed

lemma endswith_iff: "endswith s suf \<longleftrightarrow> (\<exists>stem. s = stem @ suf)"
proof
  assume "endswith s suf"
  then have "s = take (length s - length suf) s @ suf"
    by (metis append_take_drop_id endswith_def)
  then show "\<exists>stem. s = stem @ suf" ..
next
  assume "\<exists>stem. s = stem @ suf"
  then show "endswith s suf" by (auto simp: endswith_def)
qed

lemma lower_append: "lower (a @ b) = lower a @ lower b"
  by (simp add: lower_def)

lemma endswith_lower_iff:
  "endswith (lower file) suf \<longleftrightarrow> (\<exists>stem ext. file = stem @ ext \<and> lower ext = suf)"
proof
  assume e: "endswith (lower file) suf"
  let ?n = "length file - length suf"
  from e have "drop ?n (lower file) = suf" by (simp add: endswith_def lower_def)
  then have "lower (drop ?n file) = suf" by (simp add: lower_def drop_map)
  moreover have "file = take ?n file @ drop ?n file" by simp
  ultimately show "\<exists>stem ext. file = stem @ ext \<and> lower ext = suf" by blast
next
  assume "\<exists>stem ext. file = stem @ ext \<and> lower ext = suf"
  then obtain stem ext where "file = stem @ ext" "lower ext = suf" by blast
  then have "lower file = lower stem @ suf" by (simp add: lower_append)
  then show "endswith (lower file) suf" by (simp add: endswith_iff)
qed

lemma is_image_suffix:
  "is_image file \<longleftrightarrow>
     (\<exists>stem ext. file = stem @ ext \<and> lower ext \<in> set [''.png'', ''.jpg'', ''.jpeg'', ''.bmp''])"
proof -
  have "is_image file \<longleftrightarrow>
          (\<exists>suf\<in>set [''.png'', ''.jpg'', ''.jpeg'', ''.bmp'']. endswith (lower file) suf)"
    by (simp only: is_image_def list_ex_iff)
  also have "\<dots> \<longleftrightarrow>
          (\<exists>suf\<in>set [''.png'', ''.jpg'', ''.jpeg'', ''.bmp''].
              \<exists>stem ext. file = stem @ ext \<and> lower ext = suf)"
    by (simp only: endswith_lower_iff)
  also have "\<dots> \<longleftrightarrow>
          (\<exists>stem ext. file = stem @ ext \<and> lower ext \<in> set [''.png'', ''.jpg'', ''.jpeg'', ''.bmp''])"
    by blast
  finally show ?thesis .
qed

lemma file_samples_agree:
  assumes "\<forall>files. os_listdir fs (os_path_join image_dir l) = Inr files \<longrightarrow>
             (\<forall>f\<in>set files. \<not> os_path_isdir fs (os_path_join (os_path_join image_dir l) f))"
  shows "class_samples fs image_dir l = file_samples fs image_dir l"
proof (cases "os_listdir fs (os_path_join image_dir l)")
  case (Inl e)
  then show ?thesis by (simp add: class_samples_def file_samples_def)
next
  case (Inr files)
  with assms have "\<forall>f\<in>set files. \<not> os_path_isdir fs (os_path_join (os_path_join image_dir l) f)"
    by blast
  then have "filter is_image files =
     filter (\<lambda>f. is_image f \<and> \<not> os_path_isdir fs (os_path_join (os_path_join image_dir l) f)) files"
    by (intro filter_cong) auto
  with Inr show ?thesis by (simp add: class_samples_def file_samples_def)
qed

lemma run_pipeline_success:
  assumes "run_pipeline ml fs project_root image_dir ns es = Inr (ret, out, fs')"
    and "SuccessRecord msg mdl acc stages link \<in> set out"
  shows "link = ''/uploads/model.pkl'' \<and> os_path_exists fs' (os_path_join project_root ''model.pkl'')"
  using assms
  by (auto simp: run_pipeline_def joblib_dump_def Let_def split: sum.splits prod.splits if_splits)

lemma tree_training:
  "main demo_learner tree_fs ''/srv/ml-backend''
     (Inr \<lparr>nodes = abc_nodes, edges = abc_edges, imageFolder = ''root''\<rparr>) =
   ([SuccessRecord ''Pipeline executed and model trained successfully!'' ''RandomForestClassifier'' 1
       [''Load'', ''Model Training''] ''/uploads/model.pkl''],
    joblib_dump (joblib_dump tree_fs ''/srv/ml-backend/model.pkl'') ''/srv/ml-backend/label_encoder.pkl'')"
proof -
  have e: "os_path_exists tree_fs ''root''" by (simp add: tree_fs_def)
  have x: "extract_all demo_learner
             (zip [''root/cat/a.jpg'', ''root/cat/b.png'', ''root/dog/c.jpeg''] [''cat'', ''cat'', ''dog'']) ([], [])
           = ([[0], [0], [0]], [''cat'', ''cat'', ''dog''])"
    by (simp add: demo_learner_def)
  have t: "train_and_score demo_learner [[0], [0], [0]] [''cat'', ''cat'', ''dog''] = Inr 1"
    by (simp add: demo_learner_def)
  have j1: "os_path_join ''/srv/ml-backend'' ''model.pkl'' = ''/srv/ml-backend/model.pkl''"
    by (simp add: os_path_join_def)
  have j2: "os_path_join ''/srv/ml-backend'' ''label_encoder.pkl'' = ''/srv/ml-backend/label_encoder.pkl''"
    by (simp add: os_path_join_def)
  show ?thesis
    by (simp add: main_def run_pipeline_def e tree_dataset abc_order abc_labels get_label_def
          demo_learner_def os_path_join_def Let_def)
qed

section \<open>Claims on the Topological Sequencer\<close>

text \<open>
  C9. Whatever the input, cyclic graphs and edges with an undeclared source included, an
  order that \<^verbatim>\<open>build_execution_order\<close> returns holds only declared node ids and
  holds none of them twice.
\<close>

theorem order_declared_and_distinct:
  "build_execution_order ns es = Inr order \<Longrightarrow> distinct order \<and> set order \<subseteq> node_id ` set ns"
proof -
  assume "build_execution_order ns es = Inr order"
  note R = build_execution_order_Inr [OF this]
  from R have "distinct order" by (elim conjE)
  moreover from R have "set order \<subseteq> node_id ` set ns" by (elim conjE)
  ultimately show ?thesis by simp
qed

theorem order_declared_and_distinct_witness:
  "build_execution_order
     [\<lparr>node_id = ''C'', label = ''c''\<rparr>, \<lparr>node_id = ''B'', label = ''b''\<rparr>,
      \<lparr>node_id = ''A'', label = ''a''\<rparr>, \<lparr>node_id = ''D'', label = ''d''\<rparr>]
     [\<lparr>source = ''A'', target = ''B''\<rparr>, \<lparr>source = ''B'', target = ''A''\<rparr>,
      \<lparr>source = ''X'', target = ''C''\<rparr>, \<lparr>source = ''D'', target = ''D''\<rparr>] = Inr []
   \<and> build_execution_order
     [\<lparr>node_id = ''C'', label = ''c''\<rparr>, \<lparr>node_id = ''B'', label = ''b''\<rparr>,
      \<lparr>node_id = ''A'', label = ''a''\<rparr>, \<lparr>node_id = ''C'', label = ''again''\<rparr>]
     [\<lparr>source = ''A'', target = ''B''\<rparr>, \<lparr>source = ''A'', target = ''B''\<rparr>,
      \<lparr>source = ''X'', target = ''B''\<rparr>] = Inr [''C'', ''A'']
   \<and> distinct [''C'', ''A'']
   \<and> set [''C'', ''A''] \<subseteq> node_id ` set
     [\<lparr>node_id = ''C'', label = ''c''\<rparr>, \<lparr>node_id = ''B'', label = ''b''\<rparr>,
      \<lparr>node_id = ''A'', label = ''a''\<rparr>, \<lparr>node_id = ''C'', label = ''again''\<rparr>]"
proof -
  have h1: "build_execution_order
     [\<lparr>node_id = ''C'', label = ''c''\<rparr>, \<lparr>node_id = ''B'', label = ''b''\<rparr>,
      \<lparr>node_id = ''A'', label = ''a''\<rparr>, \<lparr>node_id = ''D'', label = ''d''\<rparr>]
     [\<lparr>source = ''A'', target = ''B''\<rparr>, \<lparr>source = ''B'', target = ''A''\<rparr>,
      \<lparr>source = ''X'', target = ''C''\<rparr>, \<lparr>source = ''D'', target = ''D''\<rparr>] = Inr []"
    by (simp add: build_execution_order_def init_in_degree_def ready_queue_def)
  have h2: "build_execution_order
     [\<lparr>node_id = ''C'', label = ''c''\<rparr>, \<lparr>node_id = ''B'', label = ''b''\<rparr>,
      \<lparr>node_id = ''A'', label = ''a''\<rparr>, \<lparr>node_id = ''C'', label = ''again''\<rparr>]
     [\<lparr>source = ''A'', target = ''B''\<rparr>, \<lparr>source = ''A'', target = ''B''\<rparr>,
      \<lparr>source = ''X'', target = ''B''\<rparr>] = Inr [''C'', ''A'']"
    by (simp add: build_execution_order_def init_in_degree_def ready_queue_def)
  from order_declared_and_distinct [OF h2] h1 h2 show ?thesis by simp
qed

text \<open>
  C5. For an acyclic graph whose edges name only declared node ids as source and target,
  \<^verbatim>\<open>build_execution_order\<close> returns an order (it raises nothing) that holds every
  declared id exactly once and in which the source of every edge appears before its
  target. The order is a function of the node list and the edge list alone: the model has no
  other input, as the source has none (dicts iterate in insertion order, the deque is
  first-in-first-out), so a second run on the same graph returns the same order.
\<close>

theorem acyclic_order_complete:
  assumes decl: "\<forall>e\<in>set es. source e \<in> node_id ` set ns \<and> target e \<in> node_id ` set ns"
    and acyc: "acyclic (edge_rel es)"
  shows "\<exists>order. build_execution_order ns es = Inr order \<and>
           distinct order \<and> set order = node_id ` set ns \<and>
           (\<forall>e\<in>set es. appears_before order (source e) (target e))"
proof -
  from decl have tg: "target ` set es \<subseteq> node_id ` set ns" by blast
  from decl have src: "\<forall>e\<in>set es. source e \<in> node_id ` set ns" by blast
  from build_execution_order_total [OF tg] obtain res where res: "build_execution_order ns es = Inr res"
    by blast
  note R = build_execution_order_Inr [OF res]
  from R have d: "distinct res" by (elim conjE)
  from R have sub: "set res \<subseteq> node_id ` set ns" by (elim conjE)
  from R have prec: "\<forall>e\<in>set es. target e \<in> set res \<longrightarrow> appears_before res (source e) (target e)"
    by (elim conjE)
  from all_placed_when_acyclic [OF res src acyc] sub have eq: "set res = node_id ` set ns" by blast
  have "\<forall>e\<in>set es. appears_before res (source e) (target e)"
  proof
    fix e assume e: "e \<in> set es"
    with decl eq have "target e \<in> set res" by blast
    with prec e show "appears_before res (source e) (target e)" by blast
  qed
  with res d eq show ?thesis by blast
qed

theorem acyclic_order_complete_witness:
  "acyclic (edge_rel [\<lparr>source = ''B'', target = ''C''\<rparr>, \<lparr>source = ''A'', target = ''B''\<rparr>, \<lparr>source = ''A'', target = ''C''\<rparr>]) \<and>
   build_execution_order
     [\<lparr>node_id = ''C'', label = ''Export''\<rparr>, \<lparr>node_id = ''B'', label = ''Model Training''\<rparr>, \<lparr>node_id = ''A'', label = ''Load''\<rparr>]
     [\<lparr>source = ''B'', target = ''C''\<rparr>, \<lparr>source = ''A'', target = ''B''\<rparr>, \<lparr>source = ''A'', target = ''C''\<rparr>]
     = Inr [''A'', ''B'', ''C''] \<and>
   distinct [''A'', ''B'', ''C''] \<and>
   set [''A'', ''B'', ''C''] =
     node_id ` set [\<lparr>node_id = ''C'', label = ''Export''\<rparr>, \<lparr>node_id = ''B'', label = ''Model Training''\<rparr>, \<lparr>node_id = ''A'', label = ''Load''\<rparr>] \<and>
   appears_before [''A'', ''B'', ''C''] ''B'' ''C'' \<and>
   appears_before [''A'', ''B'', ''C''] ''A'' ''B'' \<and>
   appears_before [''A'', ''B'', ''C''] ''A'' ''C''"
proof -
  let ?N = "[\<lparr>node_id = ''C'', label = ''Export''\<rparr>, \<lparr>node_id = ''B'', label = ''Model Training''\<rparr>, \<lparr>node_id = ''A'', label = ''Load''\<rparr>]"
  let ?E = "[\<lparr>source = ''B'', target = ''C''\<rparr>, \<lparr>source = ''A'', target = ''B''\<rparr>, \<lparr>source = ''A'', target = ''C''\<rparr>]"
  have decl: "\<forall>e\<in>set ?E. source e \<in> node_id ` set ?N \<and> target e \<in> node_id ` set ?N" by simp
  have "acyclic ({} :: (node_id \<times> node_id) set)" by (simp add: acyclic_def)
  then have acyc: "acyclic (edge_rel ?E)" by (simp add: edge_rel_def rtrancl_insert)
  have run: "build_execution_order ?N ?E = Inr [''A'', ''B'', ''C'']"
    by (simp add: build_execution_order_def init_in_degree_def ready_queue_def)
  from acyclic_order_complete [OF decl acyc] run
  have "distinct [''A'', ''B'', ''C''] \<and> set [''A'', ''B'', ''C''] = node_id ` set ?N \<and>
        (\<forall>e\<in>set ?E. appears_before [''A'', ''B'', ''C''] (source e) (target e))"
    by auto
  then have "distinct [''A'', ''B'', ''C''] \<and> set [''A'', ''B'', ''C''] = node_id ` set ?N \<and>
        appears_before [''A'', ''B'', ''C''] ''B'' ''C'' \<and>
        appears_before [''A'', ''B'', ''C''] ''A'' ''B'' \<and>
        appears_before [''A'', ''B'', ''C''] ''A'' ''C''"
    by simp
  with acyc run show ?thesis by blast
qed

text \<open>
  C3, amended. The Sequencer has no "not fully orderable" signal: its result is the list
  alone. When every edge's target is a declared id, and the graph has a cycle or an edge
  whose source is undeclared, \<^verbatim>\<open>build_execution_order\<close> raises nothing and returns a
  partial order: strictly shorter than the number of distinct declared ids, without
  repetition, of declared ids only, and with the source of every edge into a placed node
  placed before it. The shortfall in length is the only trace of the condition.
\<close>

theorem partial_order_when_not_orderable:
  assumes tg: "\<forall>e\<in>set es. target e \<in> node_id ` set ns"
    and bad: "\<not> acyclic (edge_rel es) \<or> (\<exists>e\<in>set es. source e \<notin> node_id ` set ns)"
  shows "\<exists>order. build_execution_order ns es = Inr order \<and>
           length order < card (node_id ` set ns) \<and>
           distinct order \<and> set order \<subseteq> node_id ` set ns \<and>
           (\<forall>e\<in>set es. target e \<in> set order \<longrightarrow> appears_before order (source e) (target e))"
proof -
  let ?V = "node_id ` set ns"
  from tg have tg': "target ` set es \<subseteq> ?V" by blast
  from build_execution_order_total [OF tg'] obtain res where res: "build_execution_order ns es = Inr res"
    by blast
  note R = build_execution_order_Inr [OF res]
  from R have d: "distinct res" by (elim conjE)
  from R have sub: "set res \<subseteq> ?V" by (elim conjE)
  from R have prec: "\<forall>e\<in>set es. target e \<in> set res \<longrightarrow> appears_before res (source e) (target e)"
    by (elim conjE)
  have "\<exists>x\<in>?V. x \<notin> set res"
  proof (cases "acyclic (edge_rel es)")
    case False
    then obtain x where xx: "(x, x) \<in> (edge_rel es)\<^sup>+" by (auto simp: acyclic_def)
    then have "x \<in> Range (edge_rel es)" by (metis Range_iff trancl_range)
    then obtain e where "e \<in> set es" "target e = x" by (auto simp: edge_rel_def)
    with tg have "x \<in> ?V" by blast
    moreover have "x \<notin> set res"
    proof
      assume "x \<in> set res"
      from follows_edges [OF prec xx this] show False by simp
    qed
    ultimately show ?thesis by blast
  next
    case True
    with bad obtain e where e: "e \<in> set es" and s: "source e \<notin> ?V" by blast
    have "target e \<notin> set res"
    proof
      assume "target e \<in> set res"
      with prec e have "appears_before res (source e) (target e)" by blast
      then have "source e \<in> set res" by (simp add: appears_before_in)
      with sub s show False by blast
    qed
    moreover from tg e have "target e \<in> ?V" by blast
    ultimately show ?thesis by blast
  qed
  with sub have "set res \<subset> ?V" by blast
  then have "card (set res) < card ?V" by (simp add: psubset_card_mono)
  with d have "length res < card ?V" by (simp add: distinct_card)
  with res d sub prec show ?thesis by blast
qed

theorem partial_order_when_not_orderable_witness:
  "\<not> acyclic (edge_rel [\<lparr>source = ''A'', target = ''B''\<rparr>, \<lparr>source = ''B'', target = ''A''\<rparr>]) \<and>
   build_execution_order
     [\<lparr>node_id = ''A'', label = ''Load''\<rparr>, \<lparr>node_id = ''B'', label = ''Model Training''\<rparr>, \<lparr>node_id = ''C'', label = ''Export''\<rparr>]
     [\<lparr>source = ''A'', target = ''B''\<rparr>, \<lparr>source = ''B'', target = ''A''\<rparr>] = Inr [''C''] \<and>
   length [''C''] < card (node_id ` set [\<lparr>node_id = ''A'', label = ''Load''\<rparr>, \<lparr>node_id = ''B'', label = ''Model Training''\<rparr>, \<lparr>node_id = ''C'', label = ''Export''\<rparr>])"
proof -
  let ?N = "[\<lparr>node_id = ''A'', label = ''Load''\<rparr>, \<lparr>node_id = ''B'', label = ''Model Training''\<rparr>, \<lparr>node_id = ''C'', label = ''Export''\<rparr>]"
  let ?E = "[\<lparr>source = ''A'', target = ''B''\<rparr>, \<lparr>source = ''B'', target = ''A''\<rparr>]"
  have tg: "\<forall>e\<in>set ?E. target e \<in> node_id ` set ?N" by simp
  have "(''A'', ''B'') \<in> edge_rel ?E" and "(''B'', ''A'') \<in> edge_rel ?E"
    by (simp_all add: edge_rel_def)
  then have "(''A'', ''A'') \<in> (edge_rel ?E)\<^sup>+" by (rule trancl_into_trancl2 [OF _ r_into_trancl])
  then have cyc: "\<not> acyclic (edge_rel ?E)" by (auto simp: acyclic_def)
  then have bad: "\<not> acyclic (edge_rel ?E) \<or> (\<exists>e\<in>set ?E. source e \<notin> node_id ` set ?N)" by (rule disjI1)
  have run: "build_execution_order ?N ?E = Inr [''C'']"
    by (simp add: build_execution_order_def init_in_degree_def ready_queue_def)
  from partial_order_when_not_orderable [OF tg bad] run
  have "length [''C''] < card (node_id ` set ?N)" by auto
  with cyc run show ?thesis by blast
qed

text \<open>
  C3 as stated fails where the missing id is an edge's target: line 37 indexes
  \<^verbatim>\<open>in_degree\<close> with it and raises \<^verbatim>\<open>KeyError\<close>, so there is no order at all.
\<close>

theorem missing_target_raises_counterexample:
  "build_execution_order [\<lparr>node_id = ''A'', label = ''Load''\<rparr>] [\<lparr>source = ''A'', target = ''X''\<rparr>]
     = Inl (KeyError ''X'')"
  by (simp add: build_execution_order_def init_in_degree_def)

text \<open>
  C4, amended. The ready-queue is seeded with the declared ids of in-degree zero in the
  iteration order of the \<^verbatim>\<open>in_degree\<close> dict, which is the order in which the node
  list first names each id, not the ascending order of the ids; and the queue is
  first-in-first-out: whatever the state of the loop, the ids in the queue leave it in
  queue order, before any id that is appended later. So every order returned starts with
  the seeds, in node-list order.
\<close>

theorem seeding_and_fifo:
  "(build_execution_order ns es = Inr order \<longrightarrow> (\<exists>rest. order = seeds ns es @ rest)) \<and>
   (drain g d q acc = Inr order' \<longrightarrow> (\<exists>rest. order' = acc @ q @ rest))"
proof (intro conjI impI)
  assume "build_execution_order ns es = Inr order"
  then obtain g d where run: "add_edges es (\<lambda>_. [], init_in_degree ns) = Inr (g, d)"
    and dr: "drain g d (ready_queue d) [] = Inr order"
    by (auto simp: build_execution_order_def split: sum.splits)
  from drain_fifo [OF dr] ready_queue_seeds [OF run]
  show "\<exists>rest. order = seeds ns es @ rest" by simp
next
  assume "drain g d q acc = Inr order'"
  then show "\<exists>rest. order' = acc @ q @ rest" by (rule drain_fifo)
qed

theorem seeding_and_fifo_witness:
  "build_execution_order
     [\<lparr>node_id = ''b'', label = ''Load''\<rparr>, \<lparr>node_id = ''a'', label = ''Clean''\<rparr>,
      \<lparr>node_id = ''c'', label = ''Model Training''\<rparr>]
     [\<lparr>source = ''b'', target = ''c''\<rparr>] = Inr [''b'', ''a'', ''c''] \<and>
   [''b'', ''a'', ''c''] =
     seeds [\<lparr>node_id = ''b'', label = ''Load''\<rparr>, \<lparr>node_id = ''a'', label = ''Clean''\<rparr>,
            \<lparr>node_id = ''c'', label = ''Model Training''\<rparr>]
           [\<lparr>source = ''b'', target = ''c''\<rparr>] @ [''c''] \<and>
   drain (\<lambda>_. []) [] [''y'', ''x''] [''z''] = Inr ([''z''] @ [''y'', ''x''] @ [])"
proof -
  let ?N = "[\<lparr>node_id = ''b'', label = ''Load''\<rparr>, \<lparr>node_id = ''a'', label = ''Clean''\<rparr>,
             \<lparr>node_id = ''c'', label = ''Model Training''\<rparr>]"
  let ?E = "[\<lparr>source = ''b'', target = ''c''\<rparr>]"
  have run: "build_execution_order ?N ?E = Inr [''b'', ''a'', ''c'']"
    by (simp add: build_execution_order_def init_in_degree_def ready_queue_def)
  have s: "seeds ?N ?E = [''b'', ''a'']"
    by (simp add: seeds_def edges_into_def)
  have dr: "drain (\<lambda>_. []) [] [''y'', ''x''] [''z''] = Inr [''z'', ''y'', ''x'']"
    by simp
  from seeding_and_fifo [of ?N ?E "[''b'', ''a'', ''c'']" "\<lambda>_. []" "[]" "[''y'', ''x'']" "[''z'']"
      "[''z'', ''y'', ''x'']"] run s dr
  show ?thesis by simp
qed

text \<open>
  C4 as stated fails on the node list \<^verbatim>\<open>[b, a]\<close> without edges: line 39 seeds the queue
  with \<^verbatim>\<open>b\<close> before \<^verbatim>\<open>a\<close>, and that is the order returned, though \<^verbatim>\<open>a < b\<close>.
\<close>

theorem seed_order_counterexample:
  "ready_queue (init_in_degree [\<lparr>node_id = ''b'', label = ''Load''\<rparr>, \<lparr>node_id = ''a'', label = ''Clean''\<rparr>])
     = [''b'', ''a''] \<and>
   build_execution_order [\<lparr>node_id = ''b'', label = ''Load''\<rparr>, \<lparr>node_id = ''a'', label = ''Clean''\<rparr>] []
     = Inr [''b'', ''a''] \<and>
   \<not> sorted [''b'', ''a'']"
  by (simp add: build_execution_order_def init_in_degree_def ready_queue_def)

section \<open>Claims on the Stage Reachability Gate\<close>

text \<open>
  C6. The gate walks the order from its head and appends the label of each node it visits
  to the stages log; at the first node labelled \<^verbatim>\<open>Model Training\<close> it stops with
  \<open>found = True\<close>, and the log is the labels up to and including that node, whatever
  follows in the order: the rest is never read. For the graph
  \<^verbatim>\<open>A(Load) -> B(Model Training) -> C(Export)\<close> the order is \<^verbatim>\<open>[A, B, C]\<close>, the log is
  exactly \<^verbatim>\<open>[Load, Model Training]\<close> and \<^verbatim>\<open>C\<close> is never visited: the result is the one
  of the order \<^verbatim>\<open>[A, B]\<close>.
\<close>

theorem gate_stops_at_training:
  assumes "\<forall>x\<in>set pre. get_label m x \<noteq> ''Model Training''"
    and "get_label m n = ''Model Training''"
  shows "walk m (pre @ n # rest) stages = (stages @ map (get_label m) pre @ [''Model Training''], True)"
  using assms by (induction pre arbitrary: stages) (simp_all add: Let_def)

theorem gate_stops_at_training_witness:
  "build_execution_order abc_nodes abc_edges = Inr ([''A''] @ ''B'' # [''C'']) \<and>
   walk (id_to_label abc_nodes) ([''A''] @ ''B'' # [''C'']) [] = ([''Load'', ''Model Training''], True) \<and>
   walk (id_to_label abc_nodes) ([''A''] @ ''B'' # []) [] = ([''Load'', ''Model Training''], True)"
proof -
  have a: "\<forall>x\<in>set [''A'']. get_label (id_to_label abc_nodes) x \<noteq> ''Model Training''"
    by (simp add: abc_labels get_label_def)
  have b: "get_label (id_to_label abc_nodes) ''B'' = ''Model Training''"
    by (simp add: abc_labels get_label_def)
  have l: "map (get_label (id_to_label abc_nodes)) [''A''] = [''Load'']"
    by (simp add: abc_labels get_label_def)
  from gate_stops_at_training [OF a b, of "[''C'']" "[]"] gate_stops_at_training [OF a b, of "[]" "[]"] l abc_order
  show ?thesis by simp
qed

section \<open>Claims on the Dataset Loader\<close>

text \<open>
  C8, amended. When the image directory can be listed and the loader returns, the paths
  and the labels have the same length and, pair by pair, they are what the loader takes
  from each entry of the image directory, in listing order: nothing from an entry that is
  not a directory; from a directory, one sample, labelled with the directory's name, for
  each entry of it, whatever its kind, whose name ends in \<^verbatim>\<open>.png\<close>, \<^verbatim>\<open>.jpg\<close>,
  \<^verbatim>\<open>.jpeg\<close> or \<^verbatim>\<open>.bmp\<close> when the case of its letters is ignored. Where no entry of a
  class directory is a directory itself, these are the files of the contract. For the tree
  \<^verbatim>\<open>root/cat/{a.jpg,b.png}\<close>, \<^verbatim>\<open>root/dog/{c.jpeg}\<close>, \<^verbatim>\<open>root/readme.txt\<close> the dataset is
  three samples labelled \<^verbatim>\<open>cat, cat, dog\<close>, and \<^verbatim>\<open>readme.txt\<close> contributes none.
\<close>

theorem dataset_loader_spec:
  assumes "os_listdir fs image_dir = Inr entries"
    and "load_dataset fs image_dir = Inr (image_paths, labels)"
  shows "length image_paths = length labels \<and>
         zip image_paths labels = concat (map (class_samples fs image_dir) entries) \<and>
         (\<forall>file. is_image file \<longleftrightarrow>
            (\<exists>stem ext. file = stem @ ext \<and> lower ext \<in> set [''.png'', ''.jpg'', ''.jpeg'', ''.bmp''])) \<and>
         ((\<forall>l\<in>set entries. \<forall>files. os_listdir fs (os_path_join image_dir l) = Inr files \<longrightarrow>
              (\<forall>f\<in>set files. \<not> os_path_isdir fs (os_path_join (os_path_join image_dir l) f))) \<longrightarrow>
          zip image_paths labels = concat (map (file_samples fs image_dir) entries))"
proof -
  from assms have "scan_root fs image_dir entries ([], []) = Inr (image_paths, labels)"
    by (simp add: load_dataset_def)
  from scan_root_spec [OF this] have len: "length image_paths = length labels"
    and z: "zip image_paths labels = concat (map (class_samples fs image_dir) entries)" by simp_all
  have suf: "\<forall>file. is_image file \<longleftrightarrow>
            (\<exists>stem ext. file = stem @ ext \<and> lower ext \<in> set [''.png'', ''.jpg'', ''.jpeg'', ''.bmp''])"
    using is_image_suffix by blast
  have agree: "zip image_paths labels = concat (map (file_samples fs image_dir) entries)"
    if h: "\<forall>l\<in>set entries. \<forall>files. os_listdir fs (os_path_join image_dir l) = Inr files \<longrightarrow>
              (\<forall>f\<in>set files. \<not> os_path_isdir fs (os_path_join (os_path_join image_dir l) f))"
  proof -
    have "map (class_samples fs image_dir) entries = map (file_samples fs image_dir) entries"
    proof (rule map_cong [OF refl])
      fix l assume "l \<in> set entries"
      with h have "\<forall>files. os_listdir fs (os_path_join image_dir l) = Inr files \<longrightarrow>
              (\<forall>f\<in>set files. \<not> os_path_isdir fs (os_path_join (os_path_join image_dir l) f))"
        by blast
      then show "class_samples fs image_dir l = file_samples fs image_dir l"
        by (rule file_samples_agree)
    qed
    with z show ?thesis by simp
  qed
  from len z suf agree show ?thesis by blast
qed

theorem dataset_loader_spec_witness:
  "os_listdir tree_fs ''root'' = Inr [''cat'', ''dog'', ''readme.txt''] \<and>
   load_dataset tree_fs ''root'' =
     Inr ([''root/cat/a.jpg'', ''root/cat/b.png'', ''root/dog/c.jpeg''], [''cat'', ''cat'', ''dog'']) \<and>
   concat (map (class_samples tree_fs ''root'') [''cat'', ''dog'', ''readme.txt'']) =
     [(''root/cat/a.jpg'', ''cat''), (''root/cat/b.png'', ''cat''), (''root/dog/c.jpeg'', ''dog'')] \<and>
   concat (map (file_samples tree_fs ''root'') [''cat'', ''dog'', ''readme.txt'']) =
     [(''root/cat/a.jpg'', ''cat''), (''root/cat/b.png'', ''cat''), (''root/dog/c.jpeg'', ''dog'')] \<and>
   class_samples tree_fs ''root'' ''readme.txt'' = [] \<and>
   is_image ''B.PnG'' \<and> is_image ''photo.JPEG'' \<and> \<not> is_image ''readme.txt''"
proof -
  have i: "is_image ''B.PnG''" "is_image ''photo.JPEG''" "\<not> is_image ''readme.txt''"
    by (simp_all add: is_image_def lower_def lower_char_def endswith_def)
  have l: "os_listdir tree_fs ''root'' = Inr [''cat'', ''dog'', ''readme.txt'']"
    by (simp add: tree_fs_def)
  have r: "class_samples tree_fs ''root'' ''readme.txt'' = []"
    by (simp add: class_samples_def tree_fs_def os_path_join_def)
  have nodirs: "\<forall>l\<in>set [''cat'', ''dog'', ''readme.txt'']. \<forall>files.
       os_listdir tree_fs (os_path_join ''root'' l) = Inr files \<longrightarrow>
       (\<forall>f\<in>set files. \<not> os_path_isdir tree_fs (os_path_join (os_path_join ''root'' l) f))"
    by (auto simp: tree_fs_def os_path_join_def)
  note T = dataset_loader_spec [OF l tree_dataset]
  from T have z: "zip [''root/cat/a.jpg'', ''root/cat/b.png'', ''root/dog/c.jpeg''] [''cat'', ''cat'', ''dog''] =
      concat (map (class_samples tree_fs ''root'') [''cat'', ''dog'', ''readme.txt''])"
    by (elim conjE)
  from T nodirs have zf: "zip [''root/cat/a.jpg'', ''root/cat/b.png'', ''root/dog/c.jpeg''] [''cat'', ''cat'', ''dog''] =
      concat (map (file_samples tree_fs ''root'') [''cat'', ''dog'', ''readme.txt''])"
    by blast
  from z [symmetric] zf [symmetric] l tree_dataset r i show ?thesis by simp
qed

text \<open>
  C8 as stated, with exactly the files of a class directory as samples, fails where a
  class directory holds a directory with an image suffix: line 61 tests the name alone,
  so \<^verbatim>\<open>root/cat/sub.jpg\<close> is a sample although it is no file.
\<close>

theorem directory_entry_sampled_counterexample:
  "os_path_isdir nested_fs ''root/cat/sub.jpg'' \<and>
   os_listdir nested_fs ''root'' = Inr [''cat''] \<and>
   load_dataset nested_fs ''root'' = Inr ([''root/cat/sub.jpg'', ''root/cat/a.jpg''], [''cat'', ''cat'']) \<and>
   concat (map (file_samples nested_fs ''root'') [''cat'']) = [(''root/cat/a.jpg'', ''cat'')]"
proof -
  have i: "is_image ''sub.jpg''" "is_image ''a.jpg''"
    by (simp_all add: is_image_def lower_def lower_char_def endswith_def)
  show ?thesis
    by (simp add: nested_fs_def load_dataset_def file_samples_def os_path_join_def i)
qed

section \<open>Claims on the Training Orchestrator and the Inference Runner\<close>

text \<open>
  C7. When the loader finds no image under the image directory, \<^verbatim>\<open>run_pipeline\<close>
  returns the error \<^verbatim>\<open>No valid images found.\<close> before it reads the graph: the outcome,
  and what \<^verbatim>\<open>main\<close> writes, are the same for any two graphs, including graphs on
  which the Sequencer would raise.
\<close>

theorem empty_dataset_error_ignores_graph:
  assumes "load_dataset fs image_dir = Inr ([], labels)"
  shows "run_pipeline ml fs project_root image_dir ns1 es1 =
           Inr (Some (ErrorRecord ''No valid images found.''), [], fs) \<and>
         run_pipeline ml fs project_root image_dir ns2 es2 =
           run_pipeline ml fs project_root image_dir ns1 es1 \<and>
         main ml fs project_root (Inr \<lparr>nodes = ns2, edges = es2, imageFolder = image_dir\<rparr>) =
           main ml fs project_root (Inr \<lparr>nodes = ns1, edges = es1, imageFolder = image_dir\<rparr>)"
  using assms by (simp add: run_pipeline_def main_def)

theorem empty_dataset_error_ignores_graph_witness:
  "load_dataset tree_fs ''empty'' = Inr ([], []) \<and>
   run_pipeline demo_learner tree_fs ''/srv/ml-backend'' ''empty'' abc_nodes abc_edges =
     Inr (Some (ErrorRecord ''No valid images found.''), [], tree_fs) \<and>
   run_pipeline demo_learner tree_fs ''/srv/ml-backend'' ''empty'' [] [\<lparr>source = ''A'', target = ''X''\<rparr>] =
     run_pipeline demo_learner tree_fs ''/srv/ml-backend'' ''empty'' abc_nodes abc_edges"
  using empty_dataset_error_ignores_graph [OF empty_dataset, of demo_learner "''/srv/ml-backend''" abc_nodes abc_edges
      "[]" "[\<lparr>source = ''A'', target = ''X''\<rparr>]"] empty_dataset
  by simp

text \<open>
  C10. A success record on standard output carries the download link
  \<^verbatim>\<open>/uploads/model.pkl\<close>, a constant, whatever the directory of the script; the model
  file has then been written to \<^verbatim>\<open>model.pkl\<close> in that directory.
\<close>

theorem download_link_constant:
  assumes "main ml fs project_root input = (out, fs')"
    and "SuccessRecord msg mdl acc stages link \<in> set out"
  shows "link = ''/uploads/model.pkl'' \<and> os_path_exists fs' (os_path_join project_root ''model.pkl'')"
proof (cases input)
  case (Inl e)
  with assms show ?thesis by (auto simp: main_def)
next
  case (Inr p)
  show ?thesis
  proof (cases "os_path_exists fs (imageFolder p)")
    case False
    with Inr assms show ?thesis by (auto simp: main_def)
  next
    case True
    show ?thesis
    proof (cases "run_pipeline ml fs project_root (imageFolder p) (nodes p) (edges p)")
      case (Inl e)
      with Inr True assms show ?thesis by (auto simp: main_def)
    next
      case r: (Inr res)
      obtain ret out' fs'' where res: "res = (ret, out', fs'')" by (cases res)
      with r Inr True assms have "out' = out" "fs'' = fs'" by (auto simp: main_def)
      with r res have "run_pipeline ml fs project_root (imageFolder p) (nodes p) (edges p) = Inr (ret, out, fs')"
        by simp
      from run_pipeline_success [OF this assms(2)] show ?thesis .
    qed
  qed
qed

theorem download_link_constant_witness:
  "main demo_learner tree_fs ''/srv/ml-backend''
     (Inr \<lparr>nodes = abc_nodes, edges = abc_edges, imageFolder = ''root''\<rparr>) =
   ([SuccessRecord ''Pipeline executed and model trained successfully!'' ''RandomForestClassifier'' 1
       [''Load'', ''Model Training''] ''/uploads/model.pkl''],
    joblib_dump (joblib_dump tree_fs ''/srv/ml-backend/model.pkl'') ''/srv/ml-backend/label_encoder.pkl'') \<and>
   os_path_exists
     (joblib_dump (joblib_dump tree_fs ''/srv/ml-backend/model.pkl'') ''/srv/ml-backend/label_encoder.pkl'')
     (os_path_join ''/srv/ml-backend'' ''model.pkl'') \<and>
   os_path_join ''/srv/ml-backend'' ''model.pkl'' \<noteq> ''/uploads/model.pkl''"
proof -
  have m: "SuccessRecord ''Pipeline executed and model trained successfully!'' ''RandomForestClassifier'' (1::real)
       [''Load'', ''Model Training''] ''/uploads/model.pkl'' \<in> set
     [SuccessRecord ''Pipeline executed and model trained successfully!'' ''RandomForestClassifier'' 1
       [''Load'', ''Model Training''] ''/uploads/model.pkl'']" by simp
  have n: "os_path_join ''/srv/ml-backend'' ''model.pkl'' \<noteq> ''/uploads/model.pkl''"
    by (simp add: os_path_join_def)
  from download_link_constant [OF tree_training m] tree_training n show ?thesis by simp
qed

text \<open>
  C1. The claim is that every invocation writes exactly one record to standard output. The
  source does not: for the empty dataset, for the graph in which \<^verbatim>\<open>Model Training\<close> is
  not reached, and when every extraction fails, \<^verbatim>\<open>run_pipeline\<close> returns the error
  record and \<^verbatim>\<open>main\<close> drops it on line 149, so nothing is written at all.
\<close>

theorem error_results_never_reach_stdout:
  "run_pipeline demo_learner tree_fs ''/srv/ml-backend'' ''empty'' abc_nodes abc_edges =
     Inr (Some (ErrorRecord ''No valid images found.''), [], tree_fs) \<and>
   main demo_learner tree_fs ''/srv/ml-backend''
     (Inr \<lparr>nodes = abc_nodes, edges = abc_edges, imageFolder = ''empty''\<rparr>) = ([], tree_fs) \<and>
   run_pipeline demo_learner tree_fs ''/srv/ml-backend'' ''root'' [\<lparr>node_id = ''A'', label = ''Load''\<rparr>] [] =
     Inr (Some (ErrorRecord ''Model Training node not connected in the pipeline.''), [], tree_fs) \<and>
   main demo_learner tree_fs ''/srv/ml-backend''
     (Inr \<lparr>nodes = [\<lparr>node_id = ''A'', label = ''Load''\<rparr>], edges = [], imageFolder = ''root''\<rparr>) = ([], tree_fs) \<and>
   run_pipeline blind_learner tree_fs ''/srv/ml-backend'' ''root'' abc_nodes abc_edges =
     Inr (Some (ErrorRecord ''Feature extraction failed or no images were processed.''), [], tree_fs) \<and>
   main blind_learner tree_fs ''/srv/ml-backend''
     (Inr \<lparr>nodes = abc_nodes, edges = abc_edges, imageFolder = ''root''\<rparr>) = ([], tree_fs)"
proof -
  have e: "os_path_exists tree_fs ''root''" "os_path_exists tree_fs ''empty''" by (simp_all add: tree_fs_def)
  have r1: "run_pipeline demo_learner tree_fs ''/srv/ml-backend'' ''empty'' abc_nodes abc_edges =
     Inr (Some (ErrorRecord ''No valid images found.''), [], tree_fs)"
    by (simp add: run_pipeline_def empty_dataset)
  have o: "build_execution_order [\<lparr>node_id = ''A'', label = ''Load''\<rparr>] [] = Inr [''A'']"
    by (simp add: build_execution_order_def init_in_degree_def ready_queue_def)
  have w: "walk (id_to_label [\<lparr>node_id = ''A'', label = ''Load''\<rparr>]) [''A''] [] = ([''Load''], False)"
    by (simp add: id_to_label_def get_label_def)
  have r2: "run_pipeline demo_learner tree_fs ''/srv/ml-backend'' ''root'' [\<lparr>node_id = ''A'', label = ''Load''\<rparr>] [] =
     Inr (Some (ErrorRecord ''Model Training node not connected in the pipeline.''), [], tree_fs)"
    by (simp add: run_pipeline_def tree_dataset o id_to_label_def get_label_def)
  have x: "extract_all blind_learner
             (zip [''root/cat/a.jpg'', ''root/cat/b.png'', ''root/dog/c.jpeg''] [''cat'', ''cat'', ''dog'']) ([], [])
           = ([], [])"
    by (simp add: blind_learner_def)
  have r3: "run_pipeline blind_learner tree_fs ''/srv/ml-backend'' ''root'' abc_nodes abc_edges =
     Inr (Some (ErrorRecord ''Feature extraction failed or no images were processed.''), [], tree_fs)"
    by (simp add: run_pipeline_def tree_dataset abc_order abc_labels get_label_def blind_learner_def)
  show ?thesis by (simp add: main_def e r1 r2 r3)
qed

text \<open>
  C2. The claim is that the Inference Runner reads the two artifacts where the Training
  Orchestrator writes them. The source does not: training writes \<^verbatim>\<open>model.pkl\<close> and
  \<^verbatim>\<open>label_encoder.pkl\<close> into the directory of the script, inference reads them from its
  \<^verbatim>\<open>uploads\<close> subdirectory, and the two paths differ for every directory. After a
  successful training run on the scenario tree, the Inference Runner reports that the
  model file is not found.
\<close>

theorem trained_artifacts_not_where_inference_reads:
  "os_path_join project_root ''model.pkl'' \<noteq> os_path_join (os_path_join project_root ''uploads'') ''model.pkl'' \<and>
   os_path_join project_root ''label_encoder.pkl'' \<noteq>
     os_path_join (os_path_join project_root ''uploads'') ''label_encoder.pkl'' \<and>
   predict_main classify
     (snd (main demo_learner tree_fs ''/srv/ml-backend''
        (Inr \<lparr>nodes = abc_nodes, edges = abc_edges, imageFolder = ''root''\<rparr>)))
     ''/srv/ml-backend'' (Some ''root/cat/a.jpg'') =
   [ErrorRecord '' Trained model file (uploads/model.pkl) not found.'' :: real json_record]"
proof -
  have a: "os_path_join project_root ''model.pkl'' \<noteq> os_path_join (os_path_join project_root ''uploads'') ''model.pkl''"
    by (auto simp: os_path_join_def)
  have b: "os_path_join project_root ''label_encoder.pkl'' \<noteq>
     os_path_join (os_path_join project_root ''uploads'') ''label_encoder.pkl''"
    by (auto simp: os_path_join_def)
  have c: "predict_main classify
     (snd (main demo_learner tree_fs ''/srv/ml-backend''
        (Inr \<lparr>nodes = abc_nodes, edges = abc_edges, imageFolder = ''root''\<rparr>)))
     ''/srv/ml-backend'' (Some ''root/cat/a.jpg'') =
   [ErrorRecord '' Trained model file (uploads/model.pkl) not found.'' :: real json_record]"
    unfolding tree_training snd_conv
    by (simp add: predict_main_def joblib_dump_def tree_fs_def os_path_join_def Let_def)
  from a b c show ?thesis by blast
qed

end
